theory Spec2Isabelle
  imports Main "HOL-Library.Sublist" "HOL-Library.Char_ord" "HOL-Library.List_Lexorder"
    "HOL-Library.Multiset"
begin

section \<open>Selective harvest: the response classifier and the harvest loop\<close>

text \<open>
  The development follows \<^verbatim>\<open>programs/selective-harvest.py\<close>. Text is a list of
  characters; a character stands for a code point below 256. The two regular expressions
  of the program are interpreted by a small backtracking matcher with the priorities of
  Python's \<^verbatim>\<open>re\<close> module (leftmost start, greedy repetition, backtracking by giving
  characters back one at a time).
\<close>

subsection \<open>Strings\<close>

text \<open>\<^verbatim>\<open>sub in text\<close>: some suffix of the text starts with \<^verbatim>\<open>sub\<close>.\<close>

fun isin :: "string \<Rightarrow> string \<Rightarrow> bool" where
  "isin sub [] = (sub = [])"
| "isin sub (c # cs) = (prefix sub (c # cs) \<or> isin sub cs)"

text \<open>\<^verbatim>\<open>str.isspace\<close> on the code points below 256.\<close>

definition isspace :: "char \<Rightarrow> bool" where
  "isspace c = (of_char c \<in> {9, 10, 11, 12, 13, 28, 29, 30, 31, 32, 133, 160 :: nat})"

text \<open>\<^verbatim>\<open>str.strip()\<close>: leading and trailing white space removed.\<close>

definition strip :: "string \<Rightarrow> string" where
  "strip s = rev (dropWhile isspace (rev (dropWhile isspace s)))"

subsection \<open>Regular expressions\<close>

datatype atom = Lit char | AnyChar | NoneOf "char list" | OneOf "char list"

fun accepts :: "atom \<Rightarrow> char \<Rightarrow> bool" where
  "accepts (Lit a) c = (c = a)"
| "accepts AnyChar c = True"
| "accepts (NoneOf cs) c = (c \<notin> set cs)"
| "accepts (OneOf cs) c = (c \<in> set cs)"

text \<open>
  A pattern is a sequence of items: one character of a class, a greedy repetition
  \<^verbatim>\<open>x*\<close> of a class, or a parenthesis (\<open>Mark\<close>), which records the rest of the
  input at that point. With \<^verbatim>\<open>re.S\<close> the dot is \<open>AnyChar\<close>.
\<close>

datatype item = One atom | Star atom | Mark

fun rmatch :: "item list \<Rightarrow> string \<Rightarrow> string list \<Rightarrow> string list option" where
  "rmatch [] s ms = Some (rev ms)"
| "rmatch (One a # r) [] ms = None"
| "rmatch (One a # r) (c # cs) ms = (if accepts a c then rmatch r cs ms else None)"
| "rmatch (Star a # r) [] ms = rmatch r [] ms"
| "rmatch (Star a # r) (c # cs) ms =
     (if accepts a c
      then (case rmatch (Star a # r) cs ms of
              Some m \<Rightarrow> Some m
            | None \<Rightarrow> rmatch r (c # cs) ms)
      else rmatch r (c # cs) ms)"
| "rmatch (Mark # r) s ms = rmatch r s (s # ms)"

text \<open>\<^verbatim>\<open>pattern.search(text)\<close>: the first start position, from the left, with a match.\<close>

fun search :: "item list \<Rightarrow> string \<Rightarrow> string list option" where
  "search r [] = rmatch r [] []"
| "search r (c # cs) =
     (case rmatch r (c # cs) [] of
        Some m \<Rightarrow> Some m
      | None \<Rightarrow> search r cs)"

text \<open>The text between two marks, the later one being a suffix of the earlier one.\<close>

definition between :: "string \<Rightarrow> string \<Rightarrow> string" where
  "between s1 s2 = take (length s1 - length s2) s1"

fun groups :: "string list \<Rightarrow> string list" where
  "groups (a # b # ms) = between a b # groups ms"
| "groups ms = []"

datatype pyexc =
    FileNotFoundError string
  | IsADirectoryError string
  | IndexError
  | OSError string

text \<open>\<^verbatim>\<open>match.group(i)\<close> for \<open>i \<ge> 1\<close>; a group the pattern does not have raises.\<close>

definition match_group :: "string list \<Rightarrow> nat \<Rightarrow> pyexc + string" where
  "match_group m i = (if 1 \<le> i \<and> i \<le> length (groups m) then Inr (groups m ! (i - 1)) else Inl IndexError)"

definition lits :: "string \<Rightarrow> item list" where
  "lits s = map (\<lambda>c. One (Lit c)) s"

definition quotes :: "char list" where
  "quotes = [CHR 0x27, CHR 0x22]"

text \<open>\<^verbatim>\<open><metadata[^>]*>(.*)</metadata>\<close>\<close>

definition metadataPat :: "item list" where
  "metadataPat =
     lits ''<metadata'' @ [Star (NoneOf ''>''), One (Lit CHR ''>''), Mark, Star AnyChar, Mark]
     @ lits ''</metadata>''"

text \<open>\<^verbatim>\<open><error.*code=['"]([^'"]*)['"][^>]*>(.*)</error>\<close>\<close>

definition errorPat :: "item list" where
  "errorPat =
     lits ''<error'' @ [Star AnyChar] @ lits ''code=''
     @ [One (OneOf quotes), Mark, Star (NoneOf quotes), Mark, One (OneOf quotes),
        Star (NoneOf ''>''), One (Lit CHR ''>''), Mark, Star AnyChar, Mark]
     @ lits ''</error>''"

subsection \<open>The file system\<close>

text \<open>
  A path names a regular file with its text, a directory, or nothing. Paths are compared
  as strings: there are no links, upper and lower case are distinguished, and two strings
  that name one file, such as \<^verbatim>\<open>a/b\<close> and \<^verbatim>\<open>a/./b\<close>, are two paths here.
  Reading and writing fail on a directory, reading and unlinking fail on a missing path;
  permissions are not modelled.
\<close>

datatype node = File string | Dir

type_synonym fs = "string \<Rightarrow> node option"

definition path_exists :: "fs \<Rightarrow> string \<Rightarrow> bool" where
  "path_exists fs p = (fs p \<noteq> None)"

definition path_isdir :: "fs \<Rightarrow> string \<Rightarrow> bool" where
  "path_isdir fs p = (fs p = Some Dir)"

definition open_read :: "string \<Rightarrow> fs \<Rightarrow> pyexc + string" where
  "open_read p fs =
     (case fs p of
        None \<Rightarrow> Inl (FileNotFoundError p)
      | Some Dir \<Rightarrow> Inl (IsADirectoryError p)
      | Some (File t) \<Rightarrow> Inr t)"

definition open_write :: "string \<Rightarrow> string \<Rightarrow> fs \<Rightarrow> pyexc + fs" where
  "open_write p t fs =
     (case fs p of
        Some Dir \<Rightarrow> Inl (IsADirectoryError p)
      | _ \<Rightarrow> Inr (fs(p \<mapsto> File t)))"

definition unlink :: "string \<Rightarrow> fs \<Rightarrow> pyexc + fs" where
  "unlink p fs =
     (case fs p of
        None \<Rightarrow> Inl (FileNotFoundError p)
      | Some Dir \<Rightarrow> Inl (IsADirectoryError p)
      | Some (File t) \<Rightarrow> Inr (fs(p := None)))"

subsection \<open>deliver\<close>

text \<open>
  The result is \<open>Inl\<close> for an exception that leaves \<^verbatim>\<open>deliver\<close>, otherwise the
  returned \<^verbatim>\<open>error\<close> (\<open>None\<close> for Python's \<^verbatim>\<open>None\<close>) and the file system.
\<close>

definition deliver :: "string \<Rightarrow> fs \<Rightarrow> pyexc + (string option \<times> fs)" where
  "deliver path fs =
     (case open_read path fs of
        Inl e \<Rightarrow> Inl e
      | Inr text \<Rightarrow>
          if isin ''</GetRecord>'' text \<and> isin ''</metadata>'' text then
            (case search metadataPat text of
               Some m \<Rightarrow>
                 (case match_group m 1 of
                    Inl e \<Rightarrow> Inl e
                  | Inr g \<Rightarrow>
                      (case open_write path (strip g) fs of
                         Inl e \<Rightarrow> Inl e
                       | Inr fs' \<Rightarrow> Inr (None, fs')))
             | None \<Rightarrow> Inr (Some ''No metadata found'', fs))
          else if isin ''</error>'' text then
            (case search errorPat text of
               Some m \<Rightarrow>
                 (case match_group m 1 of
                    Inl e \<Rightarrow> Inl e
                  | Inr code \<Rightarrow>
                      (case match_group m 2 of
                         Inl e \<Rightarrow> Inl e
                       | Inr msg \<Rightarrow> Inr (Some (code @ '': '' @ msg), fs)))
             | None \<Rightarrow> Inr (Some ''Could not parse error message'', fs))
          else Inr (Some ''No record found and no error message found'', fs))"

subsection \<open>The task model\<close>

text \<open>
  A task and an output set are dictionaries read with \<^verbatim>\<open>.get(key, default)\<close>: a
  field is \<open>None\<close> when the key is absent. The identifiers are the elements of the
  set (or list) stored under \<^verbatim>\<open>'ids'\<close>, in its iteration order.
\<close>

record repo_set =
  s_name :: "string option"
  s_ids :: "string list option"

record repo_task =
  t_name :: "string option"
  t_url :: "string option"
  t_meta :: "string option"
  t_dest :: "string option"
  t_sets :: "repo_set list option"

definition get_or :: "'a option \<Rightarrow> 'a \<Rightarrow> 'a" where
  "get_or v d = (case v of None \<Rightarrow> d | Some x \<Rightarrow> x)"

subsection \<open>The environment and the messages\<close>

text \<open>
  What \<^verbatim>\<open>run(('curl', '-s', '-o', docDest, docUrl))\<close> does is given by the
  environment: the call raises, or the process ends without output, or it writes a text to
  \<^verbatim>\<open>docDest\<close>. A non-zero exit status raises nothing, since \<^verbatim>\<open>run\<close> is called
  without \<^verbatim>\<open>check\<close>. Whether a missing directory can be created (permissions, a
  regular file in the place of a parent) is given by the environment as well.
\<close>

datatype fetch_result = Raises pyexc | NoOutput | Writes string

record env =
  makedirs_ok :: "fs \<Rightarrow> string \<Rightarrow> bool"
  curl :: "fs \<Rightarrow> string \<Rightarrow> string \<Rightarrow> fetch_result"

text \<open>
  The parents of a path are its non-empty prefixes that end before a \<^verbatim>\<open>/\<close>:
  \<^verbatim>\<open>out\<close> and \<^verbatim>\<open>out/s\<close> for \<^verbatim>\<open>out/s/a\<close>.
\<close>

fun ancestors_from :: "string \<Rightarrow> string \<Rightarrow> string list" where
  "ancestors_from pre [] = []"
| "ancestors_from pre (c # cs) =
     (if c = CHR ''/'' \<and> pre \<noteq> [] then [pre] else []) @ ancestors_from (pre @ [c]) cs"

definition ancestors :: "string \<Rightarrow> string list" where
  "ancestors p = ancestors_from [] p"

text \<open>Each of the paths that is missing becomes a directory.\<close>

fun mkdirs :: "string list \<Rightarrow> fs \<Rightarrow> fs" where
  "mkdirs [] fs = fs"
| "mkdirs (p # ps) fs = mkdirs ps (if fs p = None then fs(p \<mapsto> Dir) else fs)"

text \<open>
  \<^verbatim>\<open>os.makedirs(p, exist_ok=True)\<close> creates the directory and every missing parent, the
  parents first.
\<close>

definition makedirs :: "env \<Rightarrow> string \<Rightarrow> fs \<Rightarrow> pyexc + fs" where
  "makedirs e p fs =
     (case fs p of
        Some Dir \<Rightarrow> Inr fs
      | Some (File t) \<Rightarrow> Inl (OSError p)
      | None \<Rightarrow>
          if makedirs_ok e fs p then Inr (mkdirs (ancestors p @ [p]) fs) else Inl (OSError p))"

definition run_curl :: "env \<Rightarrow> string \<Rightarrow> string \<Rightarrow> fs \<Rightarrow> pyexc + fs" where
  "run_curl e dst url fs =
     (case curl e fs dst url of
        Raises x \<Rightarrow> Inl x
      | NoOutput \<Rightarrow> Inr fs
      | Writes t \<Rightarrow>
          (case fs dst of
             Some Dir \<Rightarrow> Inr fs
           | _ \<Rightarrow> Inr (fs(dst \<mapsto> File t))))"

text \<open>\<^verbatim>\<open>docError\<close> is \<^verbatim>\<open>None\<close>, a string returned by \<^verbatim>\<open>deliver\<close>, or a caught exception.\<close>

datatype doc_error = ErrStr string | ErrExc pyexc

fun truthy :: "doc_error option \<Rightarrow> bool" where
  "truthy None = False"
| "truthy (Some (ErrStr s)) = (s \<noteq> [])"
| "truthy (Some (ErrExc x)) = True"

text \<open>
  The messages handed to \<^verbatim>\<open>errorln\<close>, \<^verbatim>\<open>info\<close> and \<^verbatim>\<open>infoln\<close>, with their
  arguments, in the order of the calls. They are recorded whatever \<^verbatim>\<open>VERBOSE\<close> is.
\<close>

datatype msg =
    Harvesting string
  | CannotCreate string
  | NotADirectory string
  | HarvestingSet string string nat
  | HarvestingDoc string
  | DocOK
  | DocXX
  | DocErrorLine doc_error
  | Harvested string string int int

record world =
  files :: fs
  log :: "msg list"

definition say :: "msg \<Rightarrow> world \<Rightarrow> world" where
  "say m w = w\<lparr>log := log w @ [m]\<rparr>"

subsection \<open>harvest\<close>

text \<open>
  The directory check made for the destination of a task (lines 102 to 111) and again for
  the directory of a set (lines 123 to 132).
\<close>

definition check_dir :: "env \<Rightarrow> string \<Rightarrow> world \<Rightarrow> bool \<times> world" where
  "check_dir e d w =
     (if \<not> path_exists (files w) d then
        (case makedirs e d (files w) of
           Inl x \<Rightarrow> (False, say (CannotCreate d) w)
         | Inr fs' \<Rightarrow> (True, w\<lparr>files := fs'\<rparr>))
      else if \<not> path_isdir (files w) d then (False, say (NotADirectory d) w)
      else (True, w))"

text \<open>\<^verbatim>\<open>'{}/{}'.format(setDest, docId.replace(':', '-'))\<close>\<close>

definition docDest :: "string \<Rightarrow> string \<Rightarrow> string" where
  "docDest setDest docId =
     setDest @ ''/'' @ map (\<lambda>c. if c = CHR '':'' then CHR ''-'' else c) docId"

definition docUrl :: "repo_task \<Rightarrow> string \<Rightarrow> string" where
  "docUrl repoTask docId =
     get_or (t_url repoTask) [] @ ''?verb=GetRecord&identifier='' @ docId
     @ ''&metadataPrefix='' @ get_or (t_meta repoTask) []"

text \<open>The \<^verbatim>\<open>try\<close> block of lines 148 to 156: fetch, then \<^verbatim>\<open>deliver\<close>.\<close>

definition attempt :: "env \<Rightarrow> string \<Rightarrow> string \<Rightarrow> fs \<Rightarrow> doc_error option \<times> fs" where
  "attempt e dst url fs =
     (case run_curl e dst url fs of
        Inl x \<Rightarrow> (Some (ErrExc x), fs)
      | Inr fs1 \<Rightarrow>
          (case deliver dst fs1 of
             Inl x \<Rightarrow> (Some (ErrExc x), fs1)
           | Inr (error, fs2) \<Rightarrow>
               (case error of
                  None \<Rightarrow> (None, fs2)
                | Some s \<Rightarrow> (Some (ErrStr s), fs2))))"

text \<open>
  The body of the loop over the identifiers (lines 138 to 165). The state is
  \<^verbatim>\<open>setGood\<close>, \<^verbatim>\<open>nError\<close> and the world; \<^verbatim>\<open>os.unlink\<close> is outside the
  \<^verbatim>\<open>try\<close> block, so its exception leaves the function.
\<close>

definition harvestDoc ::
  "env \<Rightarrow> repo_task \<Rightarrow> string \<Rightarrow> string \<Rightarrow> bool \<times> int \<times> world \<Rightarrow> pyexc + (bool \<times> int \<times> world)" where
  "harvestDoc e repoTask setDest docId st =
     (case st of (setGood, nError, w) \<Rightarrow>
        (let w1 = say (HarvestingDoc docId) w;
             dst = docDest setDest docId;
             (docError, fs1) = attempt e dst (docUrl repoTask docId) (files w1)
         in case (if truthy docError \<and> path_exists fs1 dst then unlink dst fs1 else Inr fs1) of
              Inl x \<Rightarrow> Inl x
            | Inr fs2 \<Rightarrow>
                (let w2 = say (if truthy docError then DocXX else DocOK) (w1\<lparr>files := fs2\<rparr>)
                 in case docError of
                      None \<Rightarrow> Inr (setGood, nError, w2)
                    | Some err \<Rightarrow>
                        if truthy docError
                        then Inr (False, nError + 1, say (DocErrorLine err) w2)
                        else Inr (setGood, nError, w2))))"

fun harvestDocs ::
  "env \<Rightarrow> repo_task \<Rightarrow> string \<Rightarrow> string list \<Rightarrow> bool \<times> int \<times> world \<Rightarrow> pyexc + (bool \<times> int \<times> world)" where
  "harvestDocs e repoTask setDest [] st = Inr st"
| "harvestDocs e repoTask setDest (docId # ids) st =
     (case harvestDoc e repoTask setDest docId st of
        Inl x \<Rightarrow> Inl x
      | Inr st' \<Rightarrow> harvestDocs e repoTask setDest ids st')"

text \<open>The body of the loop over the sets (lines 116 to 170); the state is \<^verbatim>\<open>good\<close> and the world.\<close>

definition harvestSet ::
  "env \<Rightarrow> repo_task \<Rightarrow> repo_set \<Rightarrow> bool \<times> world \<Rightarrow> pyexc + (bool \<times> world)" where
  "harvestSet e repoTask repoSet st =
     (case st of (good, w) \<Rightarrow>
        (let taskName = get_or (t_name repoTask) ''UNSPECIFIED'';
             dest = get_or (t_dest repoTask) [];
             setName = get_or (s_name repoSet) ''UNSPECIFIED'';
             ids = sort (get_or (s_ids repoSet) []);
             w1 = say (HarvestingSet taskName setName (length ids)) w;
             setDest = dest @ ''/'' @ setName;
             (setGood, w2) = check_dir e setDest w1
         in if \<not> setGood then Inr (False, w2)
            else
              (case harvestDocs e repoTask setDest ids (setGood, 0, w2) of
                 Inl x \<Rightarrow> Inl x
               | Inr (setGood', nError, w3) \<Rightarrow>
                   Inr (if \<not> setGood' then False else good,
                        say (Harvested taskName setName (int (length ids) - nError) nError) w3))))"

fun harvestSets ::
  "env \<Rightarrow> repo_task \<Rightarrow> repo_set list \<Rightarrow> bool \<times> world \<Rightarrow> pyexc + (bool \<times> world)" where
  "harvestSets e repoTask [] st = Inr st"
| "harvestSets e repoTask (repoSet # rest) st =
     (case harvestSet e repoTask repoSet st of
        Inl x \<Rightarrow> Inl x
      | Inr st' \<Rightarrow> harvestSets e repoTask rest st')"

definition harvest :: "env \<Rightarrow> repo_task \<Rightarrow> world \<Rightarrow> pyexc + (bool \<times> world)" where
  "harvest e repoTask w =
     (let taskName = get_or (t_name repoTask) ''UNSPECIFIED'';
          w1 = say (Harvesting taskName) w;
          dest = get_or (t_dest repoTask) [];
          (good, w2) = check_dir e dest w1
      in if \<not> good then Inr (False, w2)
         else harvestSets e repoTask (get_or (t_sets repoTask) []) (good, w2))"

subsection \<open>harvestAll\<close>

fun harvestTasks :: "env \<Rightarrow> repo_task list \<Rightarrow> bool \<times> world \<Rightarrow> pyexc + (bool \<times> world)" where
  "harvestTasks e [] st = Inr st"
| "harvestTasks e (repoTask # rest) (good, w) =
     (case harvest e repoTask w of
        Inl x \<Rightarrow> Inl x
      | Inr (thisGood, w') \<Rightarrow> harvestTasks e rest (if \<not> thisGood then False else good, w'))"

definition harvestAll :: "env \<Rightarrow> repo_task list \<Rightarrow> world \<Rightarrow> pyexc + (bool \<times> world)" where
  "harvestAll e repoTasks w = harvestTasks e repoTasks (True, w)"

subsection \<open>Example inputs\<close>

definition env_ok :: env where
  "env_ok =
     \<lparr>makedirs_ok = (\<lambda>fs p. True),
      curl = (\<lambda>fs dst url. Writes ''<GetRecord><metadata>A</metadata></GetRecord>'')\<rparr>"

definition env_readonly :: env where
  "env_readonly = \<lparr>makedirs_ok = (\<lambda>fs p. False), curl = (\<lambda>fs dst url. NoOutput)\<rparr>"

definition task_r :: repo_task where
  "task_r =
     \<lparr>t_name = Some ''r'', t_url = Some ''http://h'', t_meta = Some ''ead'',
      t_dest = Some ''out'',
      t_sets = Some [\<lparr>s_name = Some ''s'', s_ids = Some [''b'', ''a'']\<rparr>]\<rparr>"

definition w_empty :: world where
  "w_empty = \<lparr>files = Map.empty, log = []\<rparr>"

definition w_rootfile :: world where
  "w_rootfile = \<lparr>files = [''out'' \<mapsto> File ''x''], log = []\<rparr>"

subsection \<open>Shapes of a response\<close>

text \<open>\<open>no_start_in l pre rest\<close>: in \<open>pre @ rest\<close> no occurrence of \<open>l\<close> starts inside \<open>pre\<close>.\<close>

fun no_start_in :: "string \<Rightarrow> string \<Rightarrow> string \<Rightarrow> bool" where
  "no_start_in l [] rest = True"
| "no_start_in l (c # cs) rest = (\<not> prefix l (c # cs @ rest) \<and> no_start_in l cs rest)"

text \<open>
  A text has the shape of a metadata element when an opening \<^verbatim>\<open><metadata\<close>, closed by
  a \<^verbatim>\<open>>\<close>, is followed somewhere by \<^verbatim>\<open></metadata>\<close>.
\<close>

definition metadata_shaped :: "string \<Rightarrow> bool" where
  "metadata_shaped text =
     (\<exists>pre attrs inner post.
        text = pre @ ''<metadata'' @ attrs @ ''>'' @ inner @ ''</metadata>'' @ post
        \<and> CHR ''>'' \<notin> set attrs)"

text \<open>
  A text has the shape of an error element when an opening \<^verbatim>\<open><error\<close> is followed
  by a quoted \<^verbatim>\<open>code=\<close> attribute, the end of the tag, and somewhere \<^verbatim>\<open></error>\<close>.
\<close>

definition error_shaped :: "string \<Rightarrow> bool" where
  "error_shaped text =
     (\<exists>pre mid q1 code q2 rest msg post.
        text = pre @ ''<error'' @ mid @ ''code='' @ q1 # code @ q2 # rest @ ''>'' @ msg
               @ ''</error>'' @ post
        \<and> q1 \<in> set quotes \<and> q2 \<in> set quotes \<and> set code \<inter> set quotes = {}
        \<and> CHR ''>'' \<notin> set rest)"

subsection \<open>Example responses\<close>

definition one_metadata :: string where
  "one_metadata = ''<GetRecord><metadata x=1> <r>DATA</r> </metadata><about/></GetRecord>''"

definition two_metadata :: string where
  "two_metadata = ''<GetRecord><record><metadata> A </metadata><about><metadata>B</metadata></about></record></GetRecord>''"

text \<open>The returned error and what is at path \<open>p\<close> after \<^verbatim>\<open>deliver\<close>.\<close>

definition file_after ::
  "pyexc + (string option \<times> fs) \<Rightarrow> string \<Rightarrow> pyexc + (string option \<times> node option)" where
  "file_after r p = (case r of Inl x \<Rightarrow> Inl x | Inr (err, fs') \<Rightarrow> Inr (err, fs' p))"

definition dq :: char where
  "dq = CHR 0x22"

definition one_error :: string where
  "one_error = ''<OAI-PMH><error code='' @ dq # ''idDoesNotExist'' @ dq # ''>Unknown id</error></OAI-PMH>''"

definition two_errors :: string where
  "two_errors = ''<error code='' @ dq # ''badArgument'' @ dq # ''>m1</error><error code=''
                @ dq # ''badVerb'' @ dq # ''>m2</error>''"

subsection \<open>Reading the messages\<close>

text \<open>What the messages and the file system say about a run.\<close>

definition is_file :: "node option \<Rightarrow> bool" where
  "is_file n = (case n of Some (File t) \<Rightarrow> True | _ \<Rightarrow> False)"

text \<open>The identifiers whose processing was announced, in the order of the messages.\<close>

fun docs_started :: "msg list \<Rightarrow> string list" where
  "docs_started [] = []"
| "docs_started (HarvestingDoc d # ms) = d # docs_started ms"
| "docs_started (m # ms) = docs_started ms"

text \<open>The messages of the loop over the identifiers.\<close>

fun is_doc_msg :: "msg \<Rightarrow> bool" where
  "is_doc_msg (HarvestingDoc d) = True"
| "is_doc_msg DocOK = True"
| "is_doc_msg DocXX = True"
| "is_doc_msg (DocErrorLine err) = True"
| "is_doc_msg m = False"

text \<open>
  The messages that report a failed directory check or a set with missed documents.
\<close>

fun failure_msg :: "msg \<Rightarrow> bool" where
  "failure_msg (CannotCreate d) = True"
| "failure_msg (NotADirectory d) = True"
| "failure_msg (Harvested t s good missed) = (missed \<noteq> 0)"
| "failure_msg m = False"

text \<open>The values \<^verbatim>\<open>harvest\<close> reads from a task and a set.\<close>

definition name_of_task :: "repo_task \<Rightarrow> string" where
  "name_of_task repoTask = get_or (t_name repoTask) ''UNSPECIFIED''"

definition name_of_set :: "repo_set \<Rightarrow> string" where
  "name_of_set repoSet = get_or (s_name repoSet) ''UNSPECIFIED''"

definition sorted_ids :: "repo_set \<Rightarrow> string list" where
  "sorted_ids repoSet = sort (get_or (s_ids repoSet) [])"

definition dest_of_set :: "repo_task \<Rightarrow> repo_set \<Rightarrow> string" where
  "dest_of_set repoTask repoSet = get_or (t_dest repoTask) [] @ ''/'' @ name_of_set repoSet"

text \<open>
  The messages of one set: its heading, then either the complaint about its directory, or
  the messages of its documents, announced in sorted order, and the summary with the
  numbers of good and missed documents, the missed ones being the \<^verbatim>\<open>XX\<close> lines.
\<close>

definition set_block :: "repo_task \<Rightarrow> repo_set \<Rightarrow> msg list \<Rightarrow> bool" where
  "set_block repoTask repoSet blk =
     (let heading = HarvestingSet (name_of_task repoTask) (name_of_set repoSet) (length (sorted_ids repoSet));
          evs = butlast (tl blk);
          missed = int (count_list evs DocXX)
      in blk = [heading, CannotCreate (dest_of_set repoTask repoSet)]
         \<or> blk = [heading, NotADirectory (dest_of_set repoTask repoSet)]
         \<or> (blk = heading # evs
                   @ [Harvested (name_of_task repoTask) (name_of_set repoSet)
                        (int (length (sorted_ids repoSet)) - missed) missed]
            \<and> list_all is_doc_msg evs
            \<and> docs_started evs = sorted_ids repoSet))"

text \<open>
  The messages of one task: its heading, then either the complaint about its destination,
  or one block for each of its sets, in the order of the task.
\<close>

definition task_block :: "repo_task \<Rightarrow> msg list \<Rightarrow> bool" where
  "task_block repoTask blk =
     (blk = [Harvesting (name_of_task repoTask), CannotCreate (get_or (t_dest repoTask) [])]
      \<or> blk = [Harvesting (name_of_task repoTask), NotADirectory (get_or (t_dest repoTask) [])]
      \<or> (\<exists>blocks. blk = Harvesting (name_of_task repoTask) # concat blocks
             \<and> list_all2 (set_block repoTask) (get_or (t_sets repoTask) []) blocks))"

text \<open>The names of the sets whose processing was announced, in the order of the messages.\<close>

fun sets_started :: "msg list \<Rightarrow> string list" where
  "sets_started [] = []"
| "sets_started (HarvestingSet t s n # ms) = s # sets_started ms"
| "sets_started (m # ms) = sets_started ms"






subsection \<open>The outcome of a run, in the words of the description\<close>

text \<open>
  The definitions of this section do not follow the code. They say, in the words of the
  description of the program, which identifiers fail, what the failure count of a set is,
  and when a set, a task and the run succeed; the results of \<^verbatim>\<open>harvest\<close> and
  \<^verbatim>\<open>harvestAll\<close> are compared with them.

  The check of a directory passes when the path is a directory, or is missing and can be
  created; it then leaves the directory, with its parents.
\<close>

definition dir_check_passed :: "env \<Rightarrow> string \<Rightarrow> fs \<Rightarrow> bool" where
  "dir_check_passed e d fs = (fs d = Some Dir \<or> fs d = None \<and> makedirs_ok e fs d)"

definition fs_after_dir_check :: "env \<Rightarrow> string \<Rightarrow> fs \<Rightarrow> fs" where
  "fs_after_dir_check e d fs =
     (if fs d = None \<and> makedirs_ok e fs d then mkdirs (ancestors d @ [d]) fs else fs)"

text \<open>
  An identifier fails when its fetch raises, or when the classification of what the fetch
  left at the destination raises or returns a message. A failed identifier leaves nothing
  at its destination; a good one leaves there what \<^verbatim>\<open>deliver\<close> wrote.
\<close>

definition doc_fails :: "env \<Rightarrow> repo_task \<Rightarrow> string \<Rightarrow> string \<Rightarrow> fs \<Rightarrow> bool" where
  "doc_fails e repoTask sd docId fs =
     (case run_curl e (docDest sd docId) (docUrl repoTask docId) fs of
        Inl x \<Rightarrow> True
      | Inr fs1 \<Rightarrow>
          (case deliver (docDest sd docId) fs1 of
             Inl x \<Rightarrow> True
           | Inr (error, fs2) \<Rightarrow> error \<noteq> None))"

definition fs_after_doc :: "env \<Rightarrow> repo_task \<Rightarrow> string \<Rightarrow> string \<Rightarrow> fs \<Rightarrow> fs" where
  "fs_after_doc e repoTask sd docId fs =
     (if doc_fails e repoTask sd docId fs then fs(docDest sd docId := None)
      else
        (case run_curl e (docDest sd docId) (docUrl repoTask docId) fs of
           Inl x \<Rightarrow> fs
         | Inr fs1 \<Rightarrow>
             (case deliver (docDest sd docId) fs1 of
                Inl x \<Rightarrow> fs
              | Inr (error, fs2) \<Rightarrow> fs2)))"

text \<open>
  The failure count of a set: the number of its identifiers that fail, each one taken in
  the file system that the identifiers before it have left.
\<close>

fun failure_count :: "env \<Rightarrow> repo_task \<Rightarrow> string \<Rightarrow> string list \<Rightarrow> fs \<Rightarrow> nat" where
  "failure_count e repoTask sd [] fs = 0"
| "failure_count e repoTask sd (docId # ids) fs =
     (if doc_fails e repoTask sd docId fs then 1 else 0)
     + failure_count e repoTask sd ids (fs_after_doc e repoTask sd docId fs)"

fun fs_after_docs :: "env \<Rightarrow> repo_task \<Rightarrow> string \<Rightarrow> string list \<Rightarrow> fs \<Rightarrow> fs" where
  "fs_after_docs e repoTask sd [] fs = fs"
| "fs_after_docs e repoTask sd (docId # ids) fs =
     fs_after_docs e repoTask sd ids (fs_after_doc e repoTask sd docId fs)"

text \<open>
  A set succeeds when the check of its directory passes and its failure count is zero. A
  set whose directory check fails is skipped.
\<close>

definition set_succeeded :: "env \<Rightarrow> repo_task \<Rightarrow> repo_set \<Rightarrow> fs \<Rightarrow> bool" where
  "set_succeeded e repoTask repoSet fs =
     (dir_check_passed e (dest_of_set repoTask repoSet) fs
      \<and> failure_count e repoTask (dest_of_set repoTask repoSet) (sorted_ids repoSet)
          (fs_after_dir_check e (dest_of_set repoTask repoSet) fs) = 0)"

definition fs_after_set :: "env \<Rightarrow> repo_task \<Rightarrow> repo_set \<Rightarrow> fs \<Rightarrow> fs" where
  "fs_after_set e repoTask repoSet fs =
     (if dir_check_passed e (dest_of_set repoTask repoSet) fs
      then fs_after_docs e repoTask (dest_of_set repoTask repoSet) (sorted_ids repoSet)
             (fs_after_dir_check e (dest_of_set repoTask repoSet) fs)
      else fs)"

fun sets_succeeded :: "env \<Rightarrow> repo_task \<Rightarrow> repo_set list \<Rightarrow> fs \<Rightarrow> bool" where
  "sets_succeeded e repoTask [] fs = True"
| "sets_succeeded e repoTask (repoSet # rest) fs =
     (set_succeeded e repoTask repoSet fs
      \<and> sets_succeeded e repoTask rest (fs_after_set e repoTask repoSet fs))"

fun fs_after_sets :: "env \<Rightarrow> repo_task \<Rightarrow> repo_set list \<Rightarrow> fs \<Rightarrow> fs" where
  "fs_after_sets e repoTask [] fs = fs"
| "fs_after_sets e repoTask (repoSet # rest) fs =
     fs_after_sets e repoTask rest (fs_after_set e repoTask repoSet fs)"

text \<open>
  A task succeeds when the check of its destination passes and all its sets succeed. A
  task whose destination check fails is skipped.
\<close>

definition task_succeeded :: "env \<Rightarrow> repo_task \<Rightarrow> fs \<Rightarrow> bool" where
  "task_succeeded e repoTask fs =
     (dir_check_passed e (get_or (t_dest repoTask) []) fs
      \<and> sets_succeeded e repoTask (get_or (t_sets repoTask) [])
          (fs_after_dir_check e (get_or (t_dest repoTask) []) fs))"

definition fs_after_task :: "env \<Rightarrow> repo_task \<Rightarrow> fs \<Rightarrow> fs" where
  "fs_after_task e repoTask fs =
     (if dir_check_passed e (get_or (t_dest repoTask) []) fs
      then fs_after_sets e repoTask (get_or (t_sets repoTask) [])
             (fs_after_dir_check e (get_or (t_dest repoTask) []) fs)
      else fs)"

text \<open>The run succeeds when all its tasks succeed.\<close>

fun all_succeeded :: "env \<Rightarrow> repo_task list \<Rightarrow> fs \<Rightarrow> bool" where
  "all_succeeded e [] fs = True"
| "all_succeeded e (repoTask # rest) fs =
     (task_succeeded e repoTask fs \<and> all_succeeded e rest (fs_after_task e repoTask fs))"

fun fs_after_tasks :: "env \<Rightarrow> repo_task list \<Rightarrow> fs \<Rightarrow> fs" where
  "fs_after_tasks e [] fs = fs"
| "fs_after_tasks e (repoTask # rest) fs = fs_after_tasks e rest (fs_after_task e repoTask fs)"

subsection \<open>Example runs\<close>

definition w_subdir :: world where
  "w_subdir = \<lparr>files = [''out'' \<mapsto> Dir, ''out/s'' \<mapsto> Dir, ''out/s/a'' \<mapsto> Dir], log = []\<rparr>"

definition w_done :: world where
  "w_done =
     \<lparr>files = [''out'' \<mapsto> Dir, ''out/s'' \<mapsto> Dir, ''out/s/a'' \<mapsto> File ''A'',
               ''out/s/b'' \<mapsto> File ''A''],
      log = [Harvesting ''r'', HarvestingSet ''r'' ''s'' 2, HarvestingDoc ''a'', DocOK,
             HarvestingDoc ''b'', DocOK, Harvested ''r'' ''s'' 2 0]\<rparr>"

text \<open>
  A repository that answers the identifier \<^verbatim>\<open>a:b\<close> with the record \<open>B\<close> and every
  other identifier with the record \<open>A\<close>; and one that answers \<^verbatim>\<open>a:b\<close> with an error.
\<close>

definition env_ab :: env where
  "env_ab =
     \<lparr>makedirs_ok = (\<lambda>fs p. True),
      curl = (\<lambda>fs dst url.
                if isin ''identifier=a:b&'' url
                then Writes ''<GetRecord><metadata>B</metadata></GetRecord>''
                else Writes ''<GetRecord><metadata>A</metadata></GetRecord>'')\<rparr>"

definition env_a :: env where
  "env_a =
     \<lparr>makedirs_ok = (\<lambda>fs p. True),
      curl = (\<lambda>fs dst url.
                if isin ''identifier=a:b&'' url
                then Writes one_error
                else Writes ''<GetRecord><metadata>A</metadata></GetRecord>'')\<rparr>"

definition set_c :: repo_set where
  "set_c = \<lparr>s_name = Some ''s'', s_ids = Some [''a:b'', ''a-b'']\<rparr>"

definition task_c :: repo_task where
  "task_c =
     \<lparr>t_name = Some ''r'', t_url = Some ''http://h'', t_meta = Some ''ead'',
      t_dest = Some ''out'', t_sets = Some [set_c]\<rparr>"

definition w_c :: world where
  "w_c =
     \<lparr>files = [''out'' \<mapsto> Dir, ''out/s'' \<mapsto> Dir, ''out/s/a-b'' \<mapsto> File ''B''],
      log = [HarvestingSet ''r'' ''s'' 2, HarvestingDoc ''a-b'', DocOK,
             HarvestingDoc ''a:b'', DocOK, Harvested ''r'' ''s'' 2 0]\<rparr>"

definition w_d :: world where
  "w_d =
     \<lparr>files = [''out'' \<mapsto> Dir, ''out/s'' \<mapsto> Dir],
      log = [HarvestingSet ''r'' ''s'' 2, HarvestingDoc ''a-b'', DocOK,
             HarvestingDoc ''a:b'', DocXX, DocErrorLine (ErrStr ''idDoesNotExist: Unknown id''),
             Harvested ''r'' ''s'' 1 1]\<rparr>"

text \<open>A repository that answers the identifier \<^verbatim>\<open>b\<close> with an error.\<close>

definition env_b :: env where
  "env_b =
     \<lparr>makedirs_ok = (\<lambda>fs p. True),
      curl = (\<lambda>fs dst url.
                if isin ''identifier=b&'' url
                then Writes one_error
                else Writes ''<GetRecord><metadata>A</metadata></GetRecord>'')\<rparr>"

definition set_r :: repo_set where
  "set_r = \<lparr>s_name = Some ''s'', s_ids = Some [''b'', ''a'']\<rparr>"


text \<open>The run of \<open>task_r\<close> against that repository, from an empty working directory.\<close>

definition w_half :: world where
  "w_half =
     \<lparr>files = [''out'' \<mapsto> Dir, ''out/s'' \<mapsto> Dir, ''out/s/a'' \<mapsto> File ''A''],
      log = [Harvesting ''r'', HarvestingSet ''r'' ''s'' 2, HarvestingDoc ''a'', DocOK,
             HarvestingDoc ''b'', DocXX, DocErrorLine (ErrStr ''idDoesNotExist: Unknown id''),
             Harvested ''r'' ''s'' 1 1]\<rparr>"

text \<open>
  A task whose destination is a regular file, followed by \<open>task_r\<close>; and a task whose
  first set has a regular file in the place of its directory.
\<close>

definition task_f :: repo_task where
  "task_f =
     \<lparr>t_name = Some ''f'', t_url = Some ''http://h'', t_meta = Some ''ead'',
      t_dest = Some ''f'', t_sets = Some [set_r]\<rparr>"

definition w_f :: world where
  "w_f = \<lparr>files = [''f'' \<mapsto> File ''x''], log = []\<rparr>"

definition w_f_done :: world where
  "w_f_done =
     \<lparr>files = [''f'' \<mapsto> File ''x'', ''out'' \<mapsto> Dir, ''out/s'' \<mapsto> Dir,
               ''out/s/a'' \<mapsto> File ''A'', ''out/s/b'' \<mapsto> File ''A''],
      log = [Harvesting ''f'', NotADirectory ''f'',
             Harvesting ''r'', HarvestingSet ''r'' ''s'' 2, HarvestingDoc ''a'', DocOK,
             HarvestingDoc ''b'', DocOK, Harvested ''r'' ''s'' 2 0]\<rparr>"

definition task_m :: repo_task where
  "task_m =
     \<lparr>t_name = Some ''m'', t_url = Some ''http://h'', t_meta = Some ''ead'',
      t_dest = Some ''out'',
      t_sets = Some [\<lparr>s_name = Some ''t'', s_ids = Some [''a'']\<rparr>, set_r]\<rparr>"

definition w_m :: world where
  "w_m = \<lparr>files = [''out'' \<mapsto> Dir, ''out/t'' \<mapsto> File ''y''], log = []\<rparr>"

definition w_m_done :: world where
  "w_m_done =
     \<lparr>files = [''out'' \<mapsto> Dir, ''out/t'' \<mapsto> File ''y'', ''out/s'' \<mapsto> Dir,
               ''out/s/a'' \<mapsto> File ''A'', ''out/s/b'' \<mapsto> File ''A''],
      log = [Harvesting ''m'', HarvestingSet ''m'' ''t'' 1, NotADirectory ''out/t'',
             HarvestingSet ''m'' ''s'' 2, HarvestingDoc ''a'', DocOK,
             HarvestingDoc ''b'', DocOK, Harvested ''m'' ''s'' 2 0]\<rparr>"


text \<open>A second task whose destination is the directory of the set of \<open>task_r\<close>.\<close>

definition task_n :: repo_task where
  "task_n =
     \<lparr>t_name = Some ''n'', t_url = Some ''http://h'', t_meta = Some ''ead'',
      t_dest = Some ''out/s'',
      t_sets = Some [\<lparr>s_name = Some ''a'', s_ids = Some []\<rparr>]\<rparr>"

section \<open>Properties\<close>

subsection \<open>deliver: the fallback\<close>

text \<open>
  C8. A text that does not contain both \<^verbatim>\<open></GetRecord>\<close> and \<^verbatim>\<open></metadata>\<close>, and
  does not contain \<^verbatim>\<open></error>\<close>, makes \<^verbatim>\<open>deliver\<close> return the message
  \<^verbatim>\<open>No record found and no error message found\<close>; the file is left as it is.
\<close>

theorem deliver_no_markers:
  assumes "fs path = Some (File text)"
    and "\<not> (isin ''</GetRecord>'' text \<and> isin ''</metadata>'' text)"
    and "\<not> isin ''</error>'' text"
  shows "deliver path fs = Inr (Some ''No record found and no error message found'', fs)"
  using assms by (auto simp: deliver_def open_read_def)

theorem deliver_no_markers_witness:
  "deliver ''p'' [''p'' \<mapsto> File ''<html>busy</html>'']
     = Inr (Some ''No record found and no error message found'',
            [''p'' \<mapsto> File ''<html>busy</html>''])"
  using deliver_no_markers [of "[''p'' \<mapsto> File ''<html>busy</html>'']" "''p''" "''<html>busy</html>''"]
  by simp

subsection \<open>harvest: a bad destination\<close>

text \<open>
  C6. When the destination of a task is a regular file, or is missing and cannot be
  created, \<^verbatim>\<open>harvest\<close> returns \<^verbatim>\<open>False\<close> at once: the file system is unchanged
  and the only messages are the task's heading and the complaint about the directory, so
  no set is entered and no document is fetched.
\<close>

theorem harvest_bad_root:
  assumes "dest = get_or (t_dest repoTask) []"
    and "(\<exists>t. files w dest = Some (File t))
         \<or> (files w dest = None \<and> \<not> makedirs_ok e (files w) dest)"
  shows "harvest e repoTask w =
           Inr (False,
                w\<lparr>log := log w @ [Harvesting (get_or (t_name repoTask) ''UNSPECIFIED''),
                                   if files w dest = None then CannotCreate dest
                                   else NotADirectory dest]\<rparr>)"
  using assms
  by (auto simp: harvest_def check_dir_def path_exists_def path_isdir_def makedirs_def
      say_def Let_def)

theorem harvest_bad_root_witness:
  "harvest env_ok task_r w_rootfile
     = Inr (False, w_rootfile\<lparr>log := [Harvesting ''r'', NotADirectory ''out'']\<rparr>)
   \<and> harvest env_readonly task_r w_empty
     = Inr (False, w_empty\<lparr>log := [Harvesting ''r'', CannotCreate ''out'']\<rparr>)"
  using harvest_bad_root [of "''out''" task_r w_rootfile env_ok]
    harvest_bad_root [of "''out''" task_r w_empty env_readonly]
  by (simp add: task_r_def w_rootfile_def w_empty_def env_readonly_def get_or_def)

subsection \<open>The matcher\<close>

lemma isin_iff: "isin l s \<longleftrightarrow> (\<exists>u v. s = u @ v \<and> prefix l v)"
proof (induction s)
  case Nil
  then show ?case by auto
next
  case (Cons c cs)
  show ?case
  proof
    assume "isin l (c # cs)"
    then consider "prefix l (c # cs)" | "isin l cs" by auto
    then show "\<exists>u v. c # cs = u @ v \<and> prefix l v"
    proof cases
      case 1
      then show ?thesis by (intro exI[of _ "[]"] exI[of _ "c # cs"]) simp
    next
      case 2
      with Cons obtain u v where "cs = u @ v" "prefix l v" by blast
      then show ?thesis by (intro exI[of _ "c # u"] exI[of _ v]) simp
    qed
  next
    assume "\<exists>u v. c # cs = u @ v \<and> prefix l v"
    then obtain u v where uv: "c # cs = u @ v" "prefix l v" by blast
    show "isin l (c # cs)"
    proof (cases u)
      case Nil
      with uv have "prefix l (c # cs)" by simp
      then show ?thesis by simp
    next
      case (Cons a u')
      with uv have "cs = u' @ v" by simp
      with uv(2) Cons.IH show ?thesis by auto
    qed
  qed
qed

lemma rmatch_lits:
  "rmatch (lits l @ r) s ms = (if prefix l s then rmatch r (drop (length l) s) ms else None)"
proof (induction l arbitrary: s)
  case Nil
  then show ?case by (simp add: lits_def)
next
  case (Cons a l)
  then show ?case by (cases s) (auto simp: lits_def)
qed

lemma star_sound:
  "rmatch (Star a # r) s ms = Some m \<Longrightarrow>
   \<exists>u v. s = u @ v \<and> (\<forall>c\<in>set u. accepts a c) \<and> rmatch r v ms = Some m"
proof (induction s)
  case Nil
  then show ?case by simp
next
  case (Cons c cs)
  show ?case
  proof (cases "accepts a c \<and> rmatch (Star a # r) cs ms \<noteq> None")
    case True
    with Cons.prems have "rmatch (Star a # r) cs ms = Some m" by auto
    with Cons.IH obtain u v where "cs = u @ v" "\<forall>c\<in>set u. accepts a c" "rmatch r v ms = Some m"
      by blast
    with True show ?thesis by (intro exI[of _ "c # u"] exI[of _ v]) simp
  next
    case False
    with Cons.prems have "rmatch r (c # cs) ms = Some m" by (auto split: if_splits option.splits)
    then show ?thesis by (intro exI[of _ "[]"] exI[of _ "c # cs"]) simp
  qed
qed

lemma star_none:
  "(\<And>u v. s = u @ v \<Longrightarrow> (\<forall>c\<in>set u. accepts a c) \<Longrightarrow> rmatch r v ms = None) \<Longrightarrow>
   rmatch (Star a # r) s ms = None"
proof (induction s)
  case Nil
  then show ?case by simp
next
  case (Cons c cs)
  have here: "rmatch r (c # cs) ms = None" using Cons.prems[of "[]" "c # cs"] by simp
  show ?case
  proof (cases "accepts a c")
    case True
    have "rmatch (Star a # r) cs ms = None"
    proof (rule Cons.IH)
      fix u v assume "cs = u @ v" "\<forall>c\<in>set u. accepts a c"
      then show "rmatch r v ms = None" using Cons.prems[of "c # u" v] True by simp
    qed
    with here True show ?thesis by simp
  next
    case False
    with here show ?thesis by simp
  qed
qed

lemma star_here:
  assumes "rmatch r v ms = Some m"
    and "\<And>u' v'. v = u' @ v' \<Longrightarrow> u' \<noteq> [] \<Longrightarrow> (\<forall>c\<in>set u'. accepts a c) \<Longrightarrow> rmatch r v' ms = None"
  shows "rmatch (Star a # r) v ms = Some m"
proof (cases v)
  case Nil
  with assms(1) show ?thesis by simp
next
  case (Cons c cs)
  show ?thesis
  proof (cases "accepts a c")
    case True
    have "rmatch (Star a # r) cs ms = None"
    proof (rule star_none)
      fix u w assume "cs = u @ w" "\<forall>c\<in>set u. accepts a c"
      then show "rmatch r w ms = None" using assms(2)[of "c # u" w] True Cons by simp
    qed
    with True Cons assms(1) show ?thesis by simp
  next
    case False
    with Cons assms(1) show ?thesis by simp
  qed
qed

lemma star_hit:
  assumes "\<forall>c\<in>set u. accepts a c"
    and "rmatch r v ms = Some m"
    and "\<And>u' v'. v = u' @ v' \<Longrightarrow> u' \<noteq> [] \<Longrightarrow> (\<forall>c\<in>set u'. accepts a c) \<Longrightarrow> rmatch r v' ms = None"
  shows "rmatch (Star a # r) (u @ v) ms = Some m"
  using assms(1)
proof (induction u)
  case Nil
  show ?case using star_here[OF assms(2,3)] by simp
next
  case (Cons c u)
  then show ?case by simp
qed

lemma search_sound:
  "search r s = Some m \<Longrightarrow> \<exists>u v. s = u @ v \<and> rmatch r v [] = Some m"
proof (induction s)
  case Nil
  then show ?case by simp
next
  case (Cons c cs)
  show ?case
  proof (cases "rmatch r (c # cs) []")
    case None
    with Cons.prems have "search r cs = Some m" by simp
    with Cons.IH obtain u v where "cs = u @ v" "rmatch r v [] = Some m" by blast
    then show ?thesis by (intro exI[of _ "c # u"] exI[of _ v]) simp
  next
    case (Some m')
    with Cons.prems have "rmatch r (c # cs) [] = Some m" by simp
    then show ?thesis by (intro exI[of _ "[]"] exI[of _ "c # cs"]) simp
  qed
qed

lemma search_hit:
  assumes "rmatch (lits l @ r) s [] = Some m"
    and "no_start_in l pre s"
  shows "search (lits l @ r) (pre @ s) = Some m"
  using assms(2)
proof (induction pre)
  case Nil
  with assms(1) show ?case by (cases s) auto
next
  case (Cons c pre)
  then have "rmatch (lits l @ r) (c # pre @ s) [] = None"
    by (simp add: rmatch_lits)
  with Cons show ?case by simp
qed


lemma star_stop:
  assumes "\<forall>c\<in>set u. accepts a c" and "\<not> accepts a t" and "rmatch r (t # v) ms = Some m"
  shows "rmatch (Star a # r) (u @ t # v) ms = Some m"
proof (rule star_hit[OF assms(1) assms(3)])
  fix u' v' assume "t # v = u' @ v'" "u' \<noteq> []" "\<forall>c\<in>set u'. accepts a c"
  then have "accepts a t" by (cases u') auto
  with assms(2) show "rmatch r v' ms = None" by simp
qed

lemma proper_suffix_isin:
  assumes "v = u' @ v'" and "u' \<noteq> []" and "prefix l v'"
  shows "isin l (tl v)"
proof -
  from assms(1,2) have "tl v = tl u' @ v'" by (cases u') auto
  with assms(3) show ?thesis unfolding isin_iff by blast
qed

lemma dotstar_last:
  assumes "\<not> isin l (tl (l @ post))"
  shows "rmatch (Star AnyChar # Mark # lits l) (u @ l @ post) ms = Some (rev ((l @ post) # ms))"
proof (rule star_hit)
  show "\<forall>c\<in>set u. accepts AnyChar c" by simp
  show "rmatch (Mark # lits l) (l @ post) ms = Some (rev ((l @ post) # ms))"
    using rmatch_lits[of l "[]" "l @ post" "(l @ post) # ms"] by simp
next
  fix u' v' assume "l @ post = u' @ v'" "u' \<noteq> []"
  then have "\<not> prefix l v'" using proper_suffix_isin[of "l @ post" u' v' l] assms by blast
  then show "rmatch (Mark # lits l) v' ms = None"
    using rmatch_lits[of l "[]" v' "v' # ms"] by simp
qed

lemma close_metadata_later: "isin ''</metadata>'' (tl (''</metadata>'' @ post)) = isin ''</metadata>'' post"
  by simp

lemma close_error_later: "isin ''</error>'' (tl (''</error>'' @ post)) = isin ''</error>'' post"
  by simp

lemma rmatch_metadataPat:
  assumes "CHR ''>'' \<notin> set attrs" and "\<not> isin ''</metadata>'' post"
  shows "rmatch metadataPat (''<metadata'' @ attrs @ ''>'' @ inner @ ''</metadata>'' @ post) []
         = Some [inner @ ''</metadata>'' @ post, ''</metadata>'' @ post]"
proof -
  let ?close = "''</metadata>''"
  have last: "rmatch (Star AnyChar # Mark # lits ?close) (inner @ ?close @ post)
                [inner @ ?close @ post] = Some [inner @ ?close @ post, ?close @ post]"
    using dotstar_last[of ?close post inner "[inner @ ?close @ post]"] assms(2)
    by (simp only: close_metadata_later) simp
  have "rmatch (Star (NoneOf ''>'') # One (Lit CHR ''>'') # Mark # Star AnyChar # Mark # lits ?close)
          (attrs @ CHR ''>'' # inner @ ?close @ post) []
        = Some [inner @ ?close @ post, ?close @ post]"
    using assms(1) last by (intro star_stop) auto
  then show ?thesis
    unfolding metadataPat_def by (simp add: rmatch_lits)
qed

lemma rmatch_metadataPat_shape:
  assumes "rmatch metadataPat v [] = Some m"
  shows "\<exists>attrs inner post. v = ''<metadata'' @ attrs @ ''>'' @ inner @ ''</metadata>'' @ post
           \<and> CHR ''>'' \<notin> set attrs"
proof -
  let ?close = "''</metadata>''"
  let ?r2 = "One (Lit CHR ''>'') # Mark # Star AnyChar # Mark # lits ?close"
  from assms have p: "prefix ''<metadata'' v"
    and m1: "rmatch (Star (NoneOf ''>'') # ?r2) (drop (length ''<metadata'') v) [] = Some m"
    unfolding metadataPat_def by (auto simp: rmatch_lits split: if_splits)
  from p obtain v1 where v: "v = ''<metadata'' @ v1" by (auto simp: prefix_def)
  with m1 have "rmatch (Star (NoneOf ''>'') # ?r2) v1 [] = Some m" by simp
  from star_sound[OF this] obtain attrs v2
    where v1: "v1 = attrs @ v2" and at: "\<forall>c\<in>set attrs. accepts (NoneOf ''>'') c"
      and m2: "rmatch ?r2 v2 [] = Some m"
    by blast
  from m2 obtain v3 where v2: "v2 = CHR ''>'' # v3"
    and m3: "rmatch (Star AnyChar # Mark # lits ?close) v3 [v3] = Some m"
    by (cases v2) (auto split: if_splits)
  from star_sound[OF m3] obtain inner v4 where v3: "v3 = inner @ v4"
    and m4: "rmatch (Mark # lits ?close) v4 [v3] = Some m"
    by blast
  from m4 have "prefix ?close v4"
    using rmatch_lits[of ?close "[]" v4 "[v4, v3]"] by (auto split: if_splits)
  then obtain post where v4: "v4 = ?close @ post" by (auto simp: prefix_def)
  from at have "CHR ''>'' \<notin> set attrs" by auto
  with v v1 v2 v3 v4 show ?thesis by auto
qed

lemma search_metadataPat_shape:
  assumes "search metadataPat text = Some m"
  shows "metadata_shaped text"
proof -
  from search_sound[OF assms] obtain u v where "text = u @ v" "rmatch metadataPat v [] = Some m"
    by blast
  with rmatch_metadataPat_shape[of v m] show ?thesis
    unfolding metadata_shaped_def by blast
qed

lemma search_metadataPat:
  assumes "no_start_in ''<metadata'' pre (''<metadata'' @ attrs @ ''>'' @ inner @ ''</metadata>'' @ post)"
    and "CHR ''>'' \<notin> set attrs" and "\<not> isin ''</metadata>'' post"
  shows "search metadataPat (pre @ ''<metadata'' @ attrs @ ''>'' @ inner @ ''</metadata>'' @ post)
         = Some [inner @ ''</metadata>'' @ post, ''</metadata>'' @ post]"
proof -
  have "search (lits ''<metadata'' @ [Star (NoneOf ''>''), One (Lit CHR ''>''), Mark, Star AnyChar, Mark]
     @ lits ''</metadata>'') (pre @ ''<metadata'' @ attrs @ ''>'' @ inner @ ''</metadata>'' @ post)
     = Some [inner @ ''</metadata>'' @ post, ''</metadata>'' @ post]"
    using rmatch_metadataPat[OF assms(2,3), of inner] assms(1)
    by (intro search_hit) (simp_all add: metadataPat_def)
  then show ?thesis by (simp add: metadataPat_def)
qed

subsection \<open>deliver: a record\<close>

lemma isin_appendI: "isin l (u @ l @ v)"
  unfolding isin_iff by (intro exI[of _ u] exI[of _ "l @ v"]) simp

lemma metadata_shaped_isin: "metadata_shaped text \<Longrightarrow> isin ''<metadata'' text"
  unfolding metadata_shaped_def using isin_appendI[of "''<metadata''"] by auto


lemma first_occurrence:
  assumes "isin l s"
  shows "\<exists>pre rest. s = pre @ l @ rest \<and> no_start_in l pre (l @ rest)"
  using assms
proof (induction s)
  case Nil
  then show ?case by simp
next
  case (Cons c cs)
  show ?case
  proof (cases "prefix l (c # cs)")
    case True
    then obtain rest where "c # cs = l @ rest" by (auto simp: prefix_def)
    then show ?thesis by (intro exI[of _ "[]"] exI[of _ rest]) simp
  next
    case False
    with Cons.prems have "isin l cs" by simp
    with Cons.IH obtain pre rest where r: "cs = pre @ l @ rest" "no_start_in l pre (l @ rest)"
      by blast
    with False show ?thesis by (intro exI[of _ "c # pre"] exI[of _ rest]) simp
  qed
qed

lemma last_occurrence:
  assumes "isin l s" and "l \<noteq> []"
  shows "\<exists>u post. s = u @ l @ post \<and> \<not> isin l (tl (l @ post))"
  using assms(1)
proof (induction s)
  case Nil
  with assms(2) show ?case by simp
next
  case (Cons c cs)
  show ?case
  proof (cases "isin l cs")
    case True
    with Cons.IH obtain u post where "cs = u @ l @ post" "\<not> isin l (tl (l @ post))" by blast
    then show ?thesis by (intro exI[of _ "c # u"] exI[of _ post]) simp
  next
    case False
    with Cons.prems have "prefix l (c # cs)" by simp
    then obtain post where p: "c # cs = l @ post" by (auto simp: prefix_def)
    with assms(2) have "tl (l @ post) = cs" by (cases l) auto
    with False p show ?thesis by (intro exI[of _ "[]"] exI[of _ post]) simp
  qed
qed

lemma no_start_in_length:
  assumes "no_start_in l pre rest" and "pre @ rest = p @ l @ x"
  shows "length pre \<le> length p"
  using assms
proof (induction pre arbitrary: p)
  case Nil
  then show ?case by simp
next
  case (Cons c pre)
  show ?case
  proof (cases p)
    case Nil
    with Cons.prems show ?thesis by (simp add: prefix_def)
  next
    case (Cons d p')
    with Cons.prems Cons.IH[of p'] show ?thesis by simp
  qed
qed

lemma append_eq_shorter:
  assumes "xs @ r = w @ t" and "length xs \<le> length w"
  shows "\<exists>y. w = xs @ y \<and> r = y @ t"
proof -
  from assms(1) have "take (length xs) (xs @ r) = take (length xs) (w @ t)" by simp
  with assms(2) have x: "xs = take (length xs) w" by simp
  then have w: "w = xs @ drop (length xs) w" by (metis append_take_drop_id)
  with assms(1) have "xs @ r = xs @ drop (length xs) w @ t" by (metis append_assoc)
  then have "r = drop (length xs) w @ t" by simp
  with w show ?thesis by blast
qed

lemma first_split_unique:
  assumes "c \<notin> set xs" and "c \<notin> set xs'" and "xs @ c # ys = xs' @ c # ys'"
  shows "xs = xs' \<and> ys = ys'"
  using assms
proof (induction xs arbitrary: xs')
  case Nil
  then show ?case by (cases xs') auto
next
  case (Cons a xs)
  then show ?case by (cases xs') auto
qed

lemma first_char_split:
  assumes "attrs @ c # r2 = y @ c # z" and "c \<notin> set attrs"
  shows "\<exists>y2. r2 = y2 @ z"
proof (cases "c \<in> set y")
  case False
  with assms have "r2 = z" using first_split_unique[of c attrs y r2 z] by simp
  then show ?thesis by simp
next
  case True
  then obtain y1 y2 where y: "y = y1 @ c # y2" "c \<notin> set y1" by (metis split_list_first)
  with assms(1) have "attrs @ c # r2 = y1 @ c # (y2 @ c # z)" by simp
  with assms(2) y(2) have "r2 = y2 @ c # z"
    using first_split_unique[of c attrs y1 r2 "y2 @ c # z"] by simp
  then show ?thesis by (intro exI[of _ "y2 @ [c]"]) simp
qed

lemma metadata_shaped_canonical:
  assumes "metadata_shaped text"
  shows "\<exists>pre attrs inner post.
           text = pre @ ''<metadata'' @ attrs @ ''>'' @ inner @ ''</metadata>'' @ post
           \<and> no_start_in ''<metadata'' pre (''<metadata'' @ attrs @ ''>'' @ inner @ ''</metadata>'' @ post)
           \<and> CHR ''>'' \<notin> set attrs \<and> \<not> isin ''</metadata>'' post"
proof -
  let ?L = "''<metadata''" and ?C = "''</metadata>''"
  from assms obtain p a i q where
    t: "text = p @ ?L @ a @ CHR ''>'' # i @ ?C @ q"
    unfolding metadata_shaped_def by auto
  then have "isin ?L text" using isin_appendI[of ?L p] by simp
  from first_occurrence[OF this] obtain pre r1 where
    f: "text = pre @ ?L @ r1" "no_start_in ?L pre (?L @ r1)" by blast
  from f(1) t have e1: "pre @ (?L @ r1) = p @ ?L @ (a @ CHR ''>'' # i @ ?C @ q)" by simp
  from no_start_in_length[OF f(2) e1] have "length pre \<le> length p" .
  from append_eq_shorter[OF e1 this] obtain p2 where
    e2: "?L @ r1 = p2 @ ?L @ a @ CHR ''>'' # i @ ?C @ q" by auto
  then have e3: "?L @ r1 = (p2 @ ?L @ a) @ (CHR ''>'' # i @ ?C @ q)" by simp
  have "length ?L \<le> length (p2 @ ?L @ a)" by simp
  from append_eq_shorter[OF e3 this] obtain y where
    r1: "r1 = y @ CHR ''>'' # i @ ?C @ q" by auto
  then have "CHR ''>'' \<in> set r1" by simp
  then obtain attrs r2 where
    g: "r1 = attrs @ CHR ''>'' # r2" "CHR ''>'' \<notin> set attrs" by (metis split_list_first)
  from r1 g(1) have "attrs @ CHR ''>'' # r2 = y @ CHR ''>'' # (i @ ?C @ q)" by simp
  from first_char_split[OF this g(2)] obtain y2 where "r2 = y2 @ i @ ?C @ q" by auto
  then have "r2 = (y2 @ i) @ ?C @ q" by simp
  then have "isin ?C r2" using isin_appendI[of ?C "y2 @ i" q] by simp
  from last_occurrence[OF this] obtain inner post where
    l: "r2 = inner @ ?C @ post" "\<not> isin ?C (tl (?C @ post))" by blast
  from l(2) have n: "\<not> isin ?C post" unfolding close_metadata_later .
  have "text = pre @ ?L @ attrs @ ''>'' @ inner @ ?C @ post" using f(1) g(1) l(1) by simp
  moreover have "no_start_in ?L pre (?L @ attrs @ ''>'' @ inner @ ?C @ post)"
    using f(2) g(1) l(1) by simp
  ultimately show ?thesis using g(2) n by blast
qed

text \<open>
  C2. Let the text contain \<^verbatim>\<open></GetRecord>\<close> and \<^verbatim>\<open></metadata>\<close>. If the first
  \<^verbatim>\<open><metadata\<close> of the text opens a tag that ends at its first \<^verbatim>\<open>>\<close>, and
  \<open>inner\<close> is the text from there to the last \<^verbatim>\<open></metadata>\<close> of the text, then
  \<^verbatim>\<open>deliver\<close> returns no error and replaces the file by \<open>inner\<close> stripped of
  leading and trailing white space. Every text that has the shape of a metadata element can
  be read in this way. If the text has not the shape of a metadata element,
  \<^verbatim>\<open>deliver\<close> returns \<^verbatim>\<open>No metadata found\<close> and leaves the file as it is.
\<close>

theorem deliver_metadata:
  assumes "fs path = Some (File text)"
    and "isin ''</GetRecord>'' text" and "isin ''</metadata>'' text"
  shows "(text = pre @ ''<metadata'' @ attrs @ ''>'' @ inner @ ''</metadata>'' @ post
            \<and> no_start_in ''<metadata'' pre (''<metadata'' @ attrs @ ''>'' @ inner @ ''</metadata>'' @ post)
            \<and> CHR ''>'' \<notin> set attrs \<and> \<not> isin ''</metadata>'' post
            \<longrightarrow> deliver path fs = Inr (None, fs(path \<mapsto> File (strip inner))))
       \<and> (metadata_shaped text \<longrightarrow>
            (\<exists>pre attrs inner post.
               text = pre @ ''<metadata'' @ attrs @ ''>'' @ inner @ ''</metadata>'' @ post
               \<and> no_start_in ''<metadata'' pre
                     (''<metadata'' @ attrs @ ''>'' @ inner @ ''</metadata>'' @ post)
               \<and> CHR ''>'' \<notin> set attrs \<and> \<not> isin ''</metadata>'' post))
       \<and> (\<not> metadata_shaped text \<longrightarrow> deliver path fs = Inr (Some ''No metadata found'', fs))"
proof (intro conjI impI)
  assume h: "text = pre @ ''<metadata'' @ attrs @ ''>'' @ inner @ ''</metadata>'' @ post
            \<and> no_start_in ''<metadata'' pre (''<metadata'' @ attrs @ ''>'' @ inner @ ''</metadata>'' @ post)
            \<and> CHR ''>'' \<notin> set attrs \<and> \<not> isin ''</metadata>'' post"
  then have "search metadataPat text = Some [inner @ ''</metadata>'' @ post, ''</metadata>'' @ post]"
    using search_metadataPat[of pre attrs inner post] by simp
  moreover have "match_group [inner @ ''</metadata>'' @ post, ''</metadata>'' @ post] 1 = Inr inner"
    by (simp add: match_group_def between_def)
  ultimately show "deliver path fs = Inr (None, fs(path \<mapsto> File (strip inner)))"
    using assms by (simp add: deliver_def open_read_def open_write_def)
next
  assume "metadata_shaped text"
  then show "\<exists>pre attrs inner post.
               text = pre @ ''<metadata'' @ attrs @ ''>'' @ inner @ ''</metadata>'' @ post
               \<and> no_start_in ''<metadata'' pre
                     (''<metadata'' @ attrs @ ''>'' @ inner @ ''</metadata>'' @ post)
               \<and> CHR ''>'' \<notin> set attrs \<and> \<not> isin ''</metadata>'' post"
    by (rule metadata_shaped_canonical)
next
  assume "\<not> metadata_shaped text"
  then have "search metadataPat text = None"
    using search_metadataPat_shape[of "text"] by (cases "search metadataPat text") auto
  then show "deliver path fs = Inr (Some ''No metadata found'', fs)"
    using assms by (simp add: deliver_def open_read_def)
qed

theorem deliver_metadata_witness:
  "deliver ''p'' [''p'' \<mapsto> File one_metadata] = Inr (None, [''p'' \<mapsto> File ''<r>DATA</r>''])
   \<and> metadata_shaped one_metadata
   \<and> (\<exists>pre attrs inner post.
          one_metadata = pre @ ''<metadata'' @ attrs @ ''>'' @ inner @ ''</metadata>'' @ post
          \<and> no_start_in ''<metadata'' pre
                (''<metadata'' @ attrs @ ''>'' @ inner @ ''</metadata>'' @ post)
          \<and> CHR ''>'' \<notin> set attrs \<and> \<not> isin ''</metadata>'' post)
   \<and> deliver ''q'' [''q'' \<mapsto> File ''</GetRecord></metadata>'']
     = Inr (Some ''No metadata found'', [''q'' \<mapsto> File ''</GetRecord></metadata>''])"
proof -
  have a: "\<not> metadata_shaped ''</GetRecord></metadata>''"
    using metadata_shaped_isin[of "''</GetRecord></metadata>''"] by auto
  have b: "strip '' <r>DATA</r> '' = ''<r>DATA</r>''"
    by (simp add: strip_def isspace_def)
  have c: "isin ''</GetRecord>'' one_metadata" "isin ''</metadata>'' one_metadata"
    by (simp_all add: one_metadata_def)
  have d: "one_metadata = ''<GetRecord>'' @ ''<metadata'' @ '' x=1'' @ ''>'' @ '' <r>DATA</r> ''
             @ ''</metadata>'' @ ''<about/></GetRecord>''"
    by (simp add: one_metadata_def)
  have e: "no_start_in ''<metadata'' ''<GetRecord>''
             (''<metadata'' @ '' x=1'' @ ''>'' @ '' <r>DATA</r> '' @ ''</metadata>'' @ ''<about/></GetRecord>'')"
    by simp
  have f: "CHR ''>'' \<notin> set '' x=1''" "\<not> isin ''</metadata>'' ''<about/></GetRecord>''"
    by simp_all
  have g: "[''p'' \<mapsto> File one_metadata] ''p'' = Some (File one_metadata)"
    "[''q'' \<mapsto> File ''</GetRecord></metadata>''] ''q'' = Some (File ''</GetRecord></metadata>'')"
    "isin ''</GetRecord>'' ''</GetRecord></metadata>''" "isin ''</metadata>'' ''</GetRecord></metadata>''"
    by simp_all
  note t1 = deliver_metadata [of "[''p'' \<mapsto> File one_metadata]" "''p''" one_metadata
      "''<GetRecord>''" "'' x=1''" "'' <r>DATA</r> ''" "''<about/></GetRecord>''", OF g(1) c]
  note t2 = deliver_metadata [of "[''q'' \<mapsto> File ''</GetRecord></metadata>'']" "''q''"
      "''</GetRecord></metadata>''", OF g(2,3,4)]
  from t1[THEN conjunct1] b d e f
  have 1: "deliver ''p'' [''p'' \<mapsto> File one_metadata] = Inr (None, [''p'' \<mapsto> File ''<r>DATA</r>''])"
    by (simp del: append.simps no_start_in.simps)
  have 2: "metadata_shaped one_metadata"
    unfolding metadata_shaped_def using d f(1) by blast
  note 3 = t1[THEN conjunct2, THEN conjunct1, THEN mp, OF 2]
  note 4 = t2[THEN conjunct2, THEN conjunct2, THEN mp, OF a]
  show ?thesis
    by (intro conjI) (rule 1, rule 2, rule 3, rule 4)
qed

text \<open>
  The payload runs to the last \<^verbatim>\<open></metadata>\<close>, not to the end of the first
  metadata element: with a second metadata element in a sibling \<^verbatim>\<open><about>\<close>, the
  file written is not the inner text \<open>A\<close> of the first element.
\<close>

theorem deliver_metadata_counterexample:
  "two_metadata = ''<GetRecord><record>'' @ ''<metadata'' @ [] @ ''>'' @ '' A '' @ ''</metadata>''
                  @ ''<about><metadata>B</metadata></about></record></GetRecord>''
   \<and> isin ''</GetRecord>'' two_metadata \<and> isin ''</metadata>'' two_metadata
   \<and> file_after (deliver ''p'' [''p'' \<mapsto> File two_metadata]) ''p''
       = Inr (None, Some (File ''A </metadata><about><metadata>B''))
   \<and> strip '' A '' = ''A''
   \<and> ''A </metadata><about><metadata>B'' \<noteq> strip '' A ''"
  by code_simp

subsection \<open>deliver: an error response\<close>

lemma quote_chars: "q \<in> set quotes \<Longrightarrow> q \<noteq> CHR ''c''"
  by (auto simp: quotes_def)

lemma code_later:
  assumes "q1 \<in> set quotes"
  shows "isin ''code='' (tl (''code='' @ q1 # x)) = isin ''code='' x"
  using quote_chars[OF assms] by auto

lemma rmatch_errorPat:
  assumes q: "q1 \<in> set quotes" "q2 \<in> set quotes"
    and code: "set code \<inter> set quotes = {}"
    and rest: "CHR ''>'' \<notin> set rest"
    and lastc: "\<not> isin ''code='' (code @ q2 # rest @ ''>'' @ msg @ ''</error>'' @ post)"
    and laste: "\<not> isin ''</error>'' post"
  shows "rmatch errorPat
           (''<error'' @ mid @ ''code='' @ q1 # code @ q2 # rest @ ''>'' @ msg @ ''</error>'' @ post) []
         = Some [code @ q2 # rest @ ''>'' @ msg @ ''</error>'' @ post,
                 q2 # rest @ ''>'' @ msg @ ''</error>'' @ post,
                 msg @ ''</error>'' @ post,
                 ''</error>'' @ post]"
proof -
  let ?close = "''</error>''"
  let ?g1 = "code @ q2 # rest @ ''>'' @ msg @ ?close @ post"
  let ?g2 = "q2 # rest @ ''>'' @ msg @ ?close @ post"
  let ?g3 = "msg @ ?close @ post"
  let ?m = "[?g1, ?g2, ?g3, ?close @ post]"
  let ?r5 = "Star AnyChar # Mark # lits ?close"
  let ?r4 = "Star (NoneOf ''>'') # One (Lit CHR ''>'') # Mark # ?r5"
  let ?r3 = "Star (NoneOf quotes) # Mark # One (OneOf quotes) # ?r4"
  let ?r2 = "lits ''code='' @ One (OneOf quotes) # Mark # ?r3"
  have s5: "rmatch ?r5 ?g3 [?g3, ?g2, ?g1] = Some ?m"
    using dotstar_last[of ?close post msg "[?g3, ?g2, ?g1]"] laste
    by (simp only: close_error_later) simp
  have s4: "rmatch ?r4 (rest @ CHR ''>'' # ?g3) [?g2, ?g1] = Some ?m"
    using rest s5 by (intro star_stop) auto
  have s3: "rmatch ?r3 (code @ ?g2) [?g1] = Some ?m"
    using code q(2) s4 by (intro star_stop) auto
  have s2: "rmatch ?r2 (''code='' @ q1 # ?g1) [] = Some ?m"
    using s3 q(1) by (simp add: rmatch_lits)
  have "rmatch (Star AnyChar # ?r2) (mid @ ''code='' @ q1 # ?g1) [] = Some ?m"
  proof (rule star_hit)
    show "\<forall>c\<in>set mid. accepts AnyChar c" by simp
    show "rmatch ?r2 (''code='' @ q1 # ?g1) [] = Some ?m" by (rule s2)
  next
    fix u' v' assume uv: "''code='' @ q1 # ?g1 = u' @ v'" "u' \<noteq> []"
    have "\<not> prefix ''code='' v'"
    proof
      assume "prefix ''code='' v'"
      from proper_suffix_isin[OF uv this] have "isin ''code='' (tl (''code='' @ q1 # ?g1))" .
      with lastc show False by (simp only: code_later[OF q(1)])
    qed
    then show "rmatch ?r2 v' [] = None" by (simp add: rmatch_lits)
  qed
  then show ?thesis unfolding errorPat_def by (simp add: rmatch_lits)
qed

lemma search_errorPat:
  assumes "no_start_in ''<error'' pre
             (''<error'' @ mid @ ''code='' @ q1 # code @ q2 # rest @ ''>'' @ msg @ ''</error>'' @ post)"
    and "q1 \<in> set quotes" "q2 \<in> set quotes"
    and "set code \<inter> set quotes = {}"
    and "CHR ''>'' \<notin> set rest"
    and "\<not> isin ''code='' (code @ q2 # rest @ ''>'' @ msg @ ''</error>'' @ post)"
    and "\<not> isin ''</error>'' post"
  shows "search errorPat
           (pre @ ''<error'' @ mid @ ''code='' @ q1 # code @ q2 # rest @ ''>'' @ msg @ ''</error>'' @ post)
         = Some [code @ q2 # rest @ ''>'' @ msg @ ''</error>'' @ post,
                 q2 # rest @ ''>'' @ msg @ ''</error>'' @ post,
                 msg @ ''</error>'' @ post,
                 ''</error>'' @ post]"
proof -
  have "search (lits ''<error'' @ [Star AnyChar] @ lits ''code=''
     @ [One (OneOf quotes), Mark, Star (NoneOf quotes), Mark, One (OneOf quotes),
        Star (NoneOf ''>''), One (Lit CHR ''>''), Mark, Star AnyChar, Mark]
     @ lits ''</error>'')
           (pre @ ''<error'' @ mid @ ''code='' @ q1 # code @ q2 # rest @ ''>'' @ msg @ ''</error>'' @ post)
         = Some [code @ q2 # rest @ ''>'' @ msg @ ''</error>'' @ post,
                 q2 # rest @ ''>'' @ msg @ ''</error>'' @ post,
                 msg @ ''</error>'' @ post,
                 ''</error>'' @ post]"
    using rmatch_errorPat[OF assms(2-7), of mid] assms(1)
    by (intro search_hit) (simp_all add: errorPat_def)
  then show ?thesis by (simp add: errorPat_def)
qed

lemma rmatch_errorPat_shape:
  assumes "rmatch errorPat v [] = Some m"
  shows "\<exists>mid q1 code q2 rest msg post.
           v = ''<error'' @ mid @ ''code='' @ q1 # code @ q2 # rest @ ''>'' @ msg @ ''</error>'' @ post
           \<and> q1 \<in> set quotes \<and> q2 \<in> set quotes \<and> set code \<inter> set quotes = {}
           \<and> CHR ''>'' \<notin> set rest"
proof -
  let ?close = "''</error>''"
  let ?r5 = "Star AnyChar # Mark # lits ?close"
  let ?r4 = "Star (NoneOf ''>'') # One (Lit CHR ''>'') # Mark # ?r5"
  let ?r3 = "Star (NoneOf quotes) # Mark # One (OneOf quotes) # ?r4"
  let ?r2 = "lits ''code='' @ One (OneOf quotes) # Mark # ?r3"
  from assms have p: "prefix ''<error'' v"
    and m1: "rmatch (Star AnyChar # ?r2) (drop (length ''<error'') v) [] = Some m"
    unfolding errorPat_def by (auto simp: rmatch_lits split: if_splits)
  from p obtain v1 where v: "v = ''<error'' @ v1" by (auto simp: prefix_def)
  with m1 have "rmatch (Star AnyChar # ?r2) v1 [] = Some m" by simp
  from star_sound[OF this] obtain mid v2 where v1: "v1 = mid @ v2"
    and m2: "rmatch ?r2 v2 [] = Some m"
    by blast
  from m2 have p2: "prefix ''code='' v2"
    and m2': "rmatch (One (OneOf quotes) # Mark # ?r3) (drop (length ''code='') v2) [] = Some m"
    by (auto simp: rmatch_lits split: if_splits)
  from p2 obtain v3 where v2: "v2 = ''code='' @ v3" by (auto simp: prefix_def)
  with m2' have "rmatch (One (OneOf quotes) # Mark # ?r3) v3 [] = Some m" by simp
  then obtain q1 v4 where v3: "v3 = q1 # v4" and q1: "q1 \<in> set quotes"
    and m3: "rmatch ?r3 v4 [v4] = Some m"
    by (cases v3) (auto split: if_splits)
  from star_sound[OF m3] obtain code v5 where v4: "v4 = code @ v5"
    and c: "\<forall>c\<in>set code. accepts (NoneOf quotes) c"
    and m4: "rmatch (Mark # One (OneOf quotes) # ?r4) v5 [v4] = Some m"
    by blast
  from m4 obtain q2 v6 where v5: "v5 = q2 # v6" and q2: "q2 \<in> set quotes"
    and m5: "rmatch ?r4 v6 [v5, v4] = Some m"
    by (cases v5) (auto split: if_splits)
  from star_sound[OF m5] obtain rest v7 where v6: "v6 = rest @ v7"
    and r: "\<forall>c\<in>set rest. accepts (NoneOf ''>'') c"
    and m6: "rmatch (One (Lit CHR ''>'') # Mark # ?r5) v7 [v5, v4] = Some m"
    by blast
  from m6 obtain v8 where v7: "v7 = CHR ''>'' # v8"
    and m7: "rmatch ?r5 v8 [v8, v5, v4] = Some m"
    by (cases v7) (auto split: if_splits)
  from star_sound[OF m7] obtain msg v9 where v8: "v8 = msg @ v9"
    and m8: "rmatch (Mark # lits ?close) v9 [v8, v5, v4] = Some m"
    by blast
  from m8 have "prefix ?close v9"
    using rmatch_lits[of ?close "[]" v9 "[v9, v8, v5, v4]"] by (auto split: if_splits)
  then obtain post where v9: "v9 = ?close @ post" by (auto simp: prefix_def)
  from c have c': "set code \<inter> set quotes = {}" by auto
  from r have r': "CHR ''>'' \<notin> set rest" by auto
  have "v = ''<error'' @ mid @ ''code='' @ q1 # code @ q2 # rest @ ''>'' @ msg @ ''</error>'' @ post"
    using v v1 v2 v3 v4 v5 v6 v7 v8 v9 by simp
  with q1 q2 c' r' show ?thesis by blast
qed

lemma search_errorPat_shape:
  assumes "search errorPat text = Some m"
  shows "error_shaped text"
proof -
  from search_sound[OF assms] obtain u v where "text = u @ v" "rmatch errorPat v [] = Some m"
    by blast
  with rmatch_errorPat_shape[of v m] show ?thesis
    unfolding error_shaped_def by blast
qed


lemma error_shaped_isin: "error_shaped text \<Longrightarrow> isin ''<error'' text"
  unfolding error_shaped_def using isin_appendI[of "''<error''"] by auto

lemma star_complete:
  assumes "\<forall>c\<in>set u. accepts a c" and "rmatch r v ms \<noteq> None"
  shows "rmatch (Star a # r) (u @ v) ms \<noteq> None"
  using assms(1)
proof (induction u)
  case Nil
  show ?case
  proof (cases v)
    case Nil
    with assms(2) show ?thesis by simp
  next
    case (Cons c cs)
    with assms(2) show ?thesis by (cases "rmatch (Star a # r) cs ms") auto
  qed
next
  case (Cons c u)
  then show ?case by (cases "rmatch (Star a # r) (u @ v) ms") auto
qed

lemma search_complete:
  assumes "rmatch r v [] \<noteq> None"
  shows "search r (u @ v) \<noteq> None"
proof (induction u)
  case Nil
  with assms show ?case by (cases v) (auto split: option.splits)
next
  case (Cons c u)
  then show ?case by (auto split: option.splits)
qed

lemma rmatch_errorPat_complete:
  assumes "q1 \<in> set quotes" "q2 \<in> set quotes" "set code \<inter> set quotes = {}"
    "CHR ''>'' \<notin> set rest"
  shows "rmatch errorPat
           (''<error'' @ mid @ ''code='' @ q1 # code @ q2 # rest @ ''>'' @ msg @ ''</error>'' @ post) []
         \<noteq> None"
proof -
  let ?close = "''</error>''"
  let ?r5 = "Star AnyChar # Mark # lits ?close"
  let ?r4 = "Star (NoneOf ''>'') # One (Lit CHR ''>'') # Mark # ?r5"
  let ?r3 = "Star (NoneOf quotes) # Mark # One (OneOf quotes) # ?r4"
  let ?r2 = "lits ''code='' @ One (OneOf quotes) # Mark # ?r3"
  have s5: "rmatch ?r5 (msg @ ?close @ post) ms \<noteq> None" for ms
    using rmatch_lits[of ?close "[]" "?close @ post"]
    by (intro star_complete) simp_all
  have s4: "rmatch ?r4 (rest @ CHR ''>'' # msg @ ?close @ post) ms \<noteq> None" for ms
    using assms(4) s5 by (intro star_complete) auto
  have s3: "rmatch ?r3 (code @ q2 # rest @ CHR ''>'' # msg @ ?close @ post) ms \<noteq> None" for ms
    using assms(2,3) s4 by (intro star_complete) auto
  have s2: "rmatch ?r2 (''code='' @ q1 # code @ q2 # rest @ CHR ''>'' # msg @ ?close @ post) [] \<noteq> None"
    using assms(1) s3 by (simp add: rmatch_lits)
  have "rmatch (Star AnyChar # ?r2)
          (mid @ ''code='' @ q1 # code @ q2 # rest @ CHR ''>'' # msg @ ?close @ post) [] \<noteq> None"
    using s2 by (intro star_complete) simp_all
  then show ?thesis unfolding errorPat_def by (simp add: rmatch_lits)
qed


lemma rmatch_errorPat_groups:
  assumes "rmatch errorPat v [] = Some m"
  shows "\<exists>mid q1 code q2 rest msg post.
           v = ''<error'' @ mid @ ''code='' @ q1 # code @ q2 # rest @ ''>'' @ msg @ ''</error>'' @ post
           \<and> q1 \<in> set quotes \<and> q2 \<in> set quotes \<and> set code \<inter> set quotes = {}
           \<and> CHR ''>'' \<notin> set rest
           \<and> match_group m 1 = Inr code \<and> match_group m 2 = Inr msg"
proof -
  let ?close = "''</error>''"
  let ?r5 = "Star AnyChar # Mark # lits ?close"
  let ?r4 = "Star (NoneOf ''>'') # One (Lit CHR ''>'') # Mark # ?r5"
  let ?r3 = "Star (NoneOf quotes) # Mark # One (OneOf quotes) # ?r4"
  let ?r2 = "lits ''code='' @ One (OneOf quotes) # Mark # ?r3"
  from assms have p: "prefix ''<error'' v"
    and m1: "rmatch (Star AnyChar # ?r2) (drop (length ''<error'') v) [] = Some m"
    unfolding errorPat_def by (auto simp: rmatch_lits split: if_splits)
  from p obtain v1 where v: "v = ''<error'' @ v1" by (auto simp: prefix_def)
  with m1 have "rmatch (Star AnyChar # ?r2) v1 [] = Some m" by simp
  from star_sound[OF this] obtain mid v2 where v1: "v1 = mid @ v2"
    and m2: "rmatch ?r2 v2 [] = Some m"
    by blast
  from m2 have p2: "prefix ''code='' v2"
    and m2': "rmatch (One (OneOf quotes) # Mark # ?r3) (drop (length ''code='') v2) [] = Some m"
    by (auto simp: rmatch_lits split: if_splits)
  from p2 obtain v3 where v2: "v2 = ''code='' @ v3" by (auto simp: prefix_def)
  with m2' have "rmatch (One (OneOf quotes) # Mark # ?r3) v3 [] = Some m" by simp
  then obtain q1 v4 where v3: "v3 = q1 # v4" and q1: "q1 \<in> set quotes"
    and m3: "rmatch ?r3 v4 [v4] = Some m"
    by (cases v3) (auto split: if_splits)
  from star_sound[OF m3] obtain code v5 where v4: "v4 = code @ v5"
    and c: "\<forall>c\<in>set code. accepts (NoneOf quotes) c"
    and m4: "rmatch (Mark # One (OneOf quotes) # ?r4) v5 [v4] = Some m"
    by blast
  from m4 obtain q2 v6 where v5: "v5 = q2 # v6" and q2: "q2 \<in> set quotes"
    and m5: "rmatch ?r4 v6 [v5, v4] = Some m"
    by (cases v5) (auto split: if_splits)
  from star_sound[OF m5] obtain rest v7 where v6: "v6 = rest @ v7"
    and r: "\<forall>c\<in>set rest. accepts (NoneOf ''>'') c"
    and m6: "rmatch (One (Lit CHR ''>'') # Mark # ?r5) v7 [v5, v4] = Some m"
    by blast
  from m6 obtain v8 where v7: "v7 = CHR ''>'' # v8"
    and m7: "rmatch ?r5 v8 [v8, v5, v4] = Some m"
    by (cases v7) (auto split: if_splits)
  from star_sound[OF m7] obtain msg v9 where v8: "v8 = msg @ v9"
    and m8: "rmatch (Mark # lits ?close) v9 [v8, v5, v4] = Some m"
    by blast
  from m8 have pc: "prefix ?close v9" and m: "m = [v4, v5, v8, v9]"
    using rmatch_lits[of ?close "[]" v9 "[v9, v8, v5, v4]"] by (auto split: if_splits)
  from pc obtain post where v9: "v9 = ?close @ post" by (auto simp: prefix_def)
  from c have c': "set code \<inter> set quotes = {}" by auto
  from r have r': "CHR ''>'' \<notin> set rest" by auto
  have "v = ''<error'' @ mid @ ''code='' @ q1 # code @ q2 # rest @ ''>'' @ msg @ ''</error>'' @ post"
    using v v1 v2 v3 v4 v5 v6 v7 v8 v9 by simp
  moreover have "match_group m 1 = Inr code" "match_group m 2 = Inr msg"
    using m v4 v8 by (simp_all add: match_group_def between_def)
  ultimately show ?thesis using q1 q2 c' r' by blast
qed

lemma search_errorPat_groups:
  assumes "error_shaped text"
  shows "\<exists>m pre mid q1 code q2 rest msg post.
           search errorPat text = Some m
           \<and> text = pre @ ''<error'' @ mid @ ''code='' @ q1 # code @ q2 # rest @ ''>'' @ msg
                    @ ''</error>'' @ post
           \<and> q1 \<in> set quotes \<and> q2 \<in> set quotes \<and> set code \<inter> set quotes = {}
           \<and> CHR ''>'' \<notin> set rest
           \<and> match_group m 1 = Inr code \<and> match_group m 2 = Inr msg"
proof -
  from assms obtain pre mid q1 code q2 rest msg post where
    t: "text = pre @ ''<error'' @ mid @ ''code='' @ q1 # code @ q2 # rest @ ''>'' @ msg
               @ ''</error>'' @ post"
    and c: "q1 \<in> set quotes" "q2 \<in> set quotes" "set code \<inter> set quotes = {}"
       "CHR ''>'' \<notin> set rest"
    unfolding error_shaped_def by blast
  from search_complete[OF rmatch_errorPat_complete[OF c], of pre mid msg post] t
  obtain m where m: "search errorPat text = Some m" by auto
  from search_sound[OF m] obtain u v where uv: "text = u @ v" "rmatch errorPat v [] = Some m"
    by blast
  from rmatch_errorPat_groups[OF uv(2)] uv(1) m show ?thesis by blast
qed

text \<open>
  C3. Let the text not contain both \<^verbatim>\<open></GetRecord>\<close> and \<^verbatim>\<open></metadata>\<close>, and
  contain \<^verbatim>\<open></error>\<close>. If after the first \<^verbatim>\<open><error\<close> of the text the last
  \<^verbatim>\<open>code=\<close> is followed by a quoted value \<open>code\<close> and the end of the tag, and
  \<open>msg\<close> is the text from there to the last \<^verbatim>\<open></error>\<close>, then \<^verbatim>\<open>deliver\<close>
  returns the error \<open>code\<close>, a colon and a space, and \<open>msg\<close>; the file is left as it
  is. For every text that has the shape of an error element the error returned is made in
  this way of the code and the message of one reading of the text as an error element. If
  the text has not the shape of an error element, \<^verbatim>\<open>deliver\<close> returns
  \<^verbatim>\<open>Could not parse error message\<close>.
\<close>

theorem deliver_error:
  assumes "fs path = Some (File text)"
    and "\<not> (isin ''</GetRecord>'' text \<and> isin ''</metadata>'' text)"
    and "isin ''</error>'' text"
  shows "(text = pre @ ''<error'' @ mid @ ''code='' @ q1 # code @ q2 # rest @ ''>'' @ msg
                 @ ''</error>'' @ post
          \<and> no_start_in ''<error'' pre
                (''<error'' @ mid @ ''code='' @ q1 # code @ q2 # rest @ ''>'' @ msg @ ''</error>'' @ post)
          \<and> q1 \<in> set quotes \<and> q2 \<in> set quotes \<and> set code \<inter> set quotes = {}
          \<and> CHR ''>'' \<notin> set rest
          \<and> \<not> isin ''code='' (code @ q2 # rest @ ''>'' @ msg @ ''</error>'' @ post)
          \<and> \<not> isin ''</error>'' post
          \<longrightarrow> deliver path fs = Inr (Some (code @ '': '' @ msg), fs))
       \<and> (error_shaped text \<longrightarrow>
            (\<exists>pre mid q1 code q2 rest msg post.
               text = pre @ ''<error'' @ mid @ ''code='' @ q1 # code @ q2 # rest @ ''>'' @ msg
                      @ ''</error>'' @ post
               \<and> q1 \<in> set quotes \<and> q2 \<in> set quotes \<and> set code \<inter> set quotes = {}
               \<and> CHR ''>'' \<notin> set rest
               \<and> deliver path fs = Inr (Some (code @ '': '' @ msg), fs)))
       \<and> (\<not> error_shaped text
          \<longrightarrow> deliver path fs = Inr (Some ''Could not parse error message'', fs))"
proof (intro conjI impI)
  let ?g1 = "code @ q2 # rest @ ''>'' @ msg @ ''</error>'' @ post"
  let ?g2 = "q2 # rest @ ''>'' @ msg @ ''</error>'' @ post"
  let ?g3 = "msg @ ''</error>'' @ post"
  assume h: "text = pre @ ''<error'' @ mid @ ''code='' @ q1 # code @ q2 # rest @ ''>'' @ msg
                 @ ''</error>'' @ post
          \<and> no_start_in ''<error'' pre
                (''<error'' @ mid @ ''code='' @ q1 # code @ q2 # rest @ ''>'' @ msg @ ''</error>'' @ post)
          \<and> q1 \<in> set quotes \<and> q2 \<in> set quotes \<and> set code \<inter> set quotes = {}
          \<and> CHR ''>'' \<notin> set rest
          \<and> \<not> isin ''code='' (code @ q2 # rest @ ''>'' @ msg @ ''</error>'' @ post)
          \<and> \<not> isin ''</error>'' post"
  then have "search errorPat text = Some [?g1, ?g2, ?g3, ''</error>'' @ post]"
    using search_errorPat[of pre mid q1 code q2 rest msg post] by simp
  moreover have "match_group [?g1, ?g2, ?g3, ''</error>'' @ post] 1 = Inr code"
    by (simp add: match_group_def between_def)
  moreover have "match_group [?g1, ?g2, ?g3, ''</error>'' @ post] 2 = Inr msg"
    by (simp add: match_group_def between_def)
  ultimately show "deliver path fs = Inr (Some (code @ '': '' @ msg), fs)"
    using assms by (auto simp: deliver_def open_read_def)
next
  assume "error_shaped text"
  from search_errorPat_groups[OF this] obtain m pre mid q1 code q2 rest msg post where
    g: "search errorPat text = Some m"
       "text = pre @ ''<error'' @ mid @ ''code='' @ q1 # code @ q2 # rest @ ''>'' @ msg
                    @ ''</error>'' @ post"
       "q1 \<in> set quotes" "q2 \<in> set quotes" "set code \<inter> set quotes = {}"
       "CHR ''>'' \<notin> set rest"
       "match_group m 1 = Inr code" "match_group m 2 = Inr msg"
    by blast
  from g(1,7,8) assms have "deliver path fs = Inr (Some (code @ '': '' @ msg), fs)"
    by (auto simp: deliver_def open_read_def)
  with g(2-6) show "\<exists>pre mid q1 code q2 rest msg post.
               text = pre @ ''<error'' @ mid @ ''code='' @ q1 # code @ q2 # rest @ ''>'' @ msg
                      @ ''</error>'' @ post
               \<and> q1 \<in> set quotes \<and> q2 \<in> set quotes \<and> set code \<inter> set quotes = {}
               \<and> CHR ''>'' \<notin> set rest
               \<and> deliver path fs = Inr (Some (code @ '': '' @ msg), fs)"
    by blast
next
  assume "\<not> error_shaped text"
  then have "search errorPat text = None"
    using search_errorPat_shape[of "text"] by (cases "search errorPat text") auto
  then show "deliver path fs = Inr (Some ''Could not parse error message'', fs)"
    using assms by (auto simp: deliver_def open_read_def)
qed

theorem deliver_error_witness:
  "deliver ''p'' [''p'' \<mapsto> File one_error]
     = Inr (Some ''idDoesNotExist: Unknown id'', [''p'' \<mapsto> File one_error])
   \<and> error_shaped one_error
   \<and> (\<exists>pre mid q1 code q2 rest msg post.
          one_error = pre @ ''<error'' @ mid @ ''code='' @ q1 # code @ q2 # rest @ ''>'' @ msg
                      @ ''</error>'' @ post
          \<and> q1 \<in> set quotes \<and> q2 \<in> set quotes \<and> set code \<inter> set quotes = {}
          \<and> CHR ''>'' \<notin> set rest
          \<and> deliver ''p'' [''p'' \<mapsto> File one_error] = Inr (Some (code @ '': '' @ msg), [''p'' \<mapsto> File one_error]))
   \<and> deliver ''q'' [''q'' \<mapsto> File ''<oops></error>'']
     = Inr (Some ''Could not parse error message'', [''q'' \<mapsto> File ''<oops></error>''])"
proof -
  have a: "\<not> error_shaped ''<oops></error>''"
    using error_shaped_isin[of "''<oops></error>''"] by auto
  have c: "\<not> (isin ''</GetRecord>'' one_error \<and> isin ''</metadata>'' one_error)"
    "isin ''</error>'' one_error"
    by (simp_all add: one_error_def dq_def)
  have d: "one_error = ''<OAI-PMH>'' @ ''<error'' @ '' '' @ ''code='' @ dq # ''idDoesNotExist''
             @ dq # [] @ ''>'' @ ''Unknown id'' @ ''</error>'' @ ''</OAI-PMH>''"
    by (simp add: one_error_def)
  have e: "no_start_in ''<error'' ''<OAI-PMH>''
             (''<error'' @ '' '' @ ''code='' @ dq # ''idDoesNotExist''
             @ dq # [] @ ''>'' @ ''Unknown id'' @ ''</error>'' @ ''</OAI-PMH>'')"
    by simp
  have f: "dq \<in> set quotes" "set ''idDoesNotExist'' \<inter> set quotes = {}"
    "CHR ''>'' \<notin> set []"
    "\<not> isin ''code='' (''idDoesNotExist'' @ dq # [] @ ''>'' @ ''Unknown id'' @ ''</error>'' @ ''</OAI-PMH>'')"
    "\<not> isin ''</error>'' ''</OAI-PMH>''"
    by (simp_all add: dq_def quotes_def)
  have g: "[''p'' \<mapsto> File one_error] ''p'' = Some (File one_error)"
    "[''q'' \<mapsto> File ''<oops></error>''] ''q'' = Some (File ''<oops></error>'')"
    "\<not> (isin ''</GetRecord>'' ''<oops></error>'' \<and> isin ''</metadata>'' ''<oops></error>'')"
    "isin ''</error>'' ''<oops></error>''"
    by simp_all
  note t1 = deliver_error [of "[''p'' \<mapsto> File one_error]" "''p''" one_error
      "''<OAI-PMH>''" "'' ''" dq "''idDoesNotExist''" dq "[]" "''Unknown id''" "''</OAI-PMH>''",
      OF g(1) c]
  note t2 = deliver_error [of "[''q'' \<mapsto> File ''<oops></error>'']" "''q''"
      "''<oops></error>''", OF g(2,3,4)]
  from t1[THEN conjunct1] d e f
  have 1: "deliver ''p'' [''p'' \<mapsto> File one_error]
     = Inr (Some ''idDoesNotExist: Unknown id'', [''p'' \<mapsto> File one_error])"
    by (simp del: append.simps no_start_in.simps isin.simps)
  have 2: "error_shaped one_error"
    unfolding error_shaped_def using d f(1,2,3) by blast
  note 3 = t1[THEN conjunct2, THEN conjunct1, THEN mp, OF 2]
  note 4 = t2[THEN conjunct2, THEN conjunct2, THEN mp, OF a]
  show ?thesis
    by (intro conjI) (rule 1, rule 2, rule 3, rule 4)
qed

text \<open>
  With two error elements the code and the message are those of the last one, not of the
  first: the repetition before \<^verbatim>\<open>code=\<close> is greedy.
\<close>

theorem deliver_error_counterexample:
  "two_errors = [] @ ''<error'' @ '' '' @ ''code='' @ dq # ''badArgument'' @ dq # [] @ ''>'' @ ''m1''
                @ ''</error>'' @ (''<error code='' @ dq # ''badVerb'' @ dq # ''>m2</error>'')
   \<and> \<not> (isin ''</GetRecord>'' two_errors \<and> isin ''</metadata>'' two_errors)
   \<and> isin ''</error>'' two_errors
   \<and> file_after (deliver ''p'' [''p'' \<mapsto> File two_errors]) ''p''
       = Inr (Some ''badVerb: m2'', Some (File two_errors))
   \<and> ''badVerb: m2'' \<noteq> ''badArgument'' @ '': '' @ ''m1''"
  by code_simp

subsection \<open>The harvest loops\<close>

lemma deliver_success:
  assumes "deliver p fs = Inr (None, fs')"
  shows "\<exists>raw m g. fs p = Some (File raw) \<and> isin ''</GetRecord>'' raw \<and> isin ''</metadata>'' raw
           \<and> search metadataPat raw = Some m \<and> match_group m 1 = Inr g
           \<and> fs' = fs(p \<mapsto> File (strip g))"
  using assms
  by (auto simp: deliver_def open_read_def open_write_def
      split: option.splits node.splits sum.splits if_splits)

lemma deliver_error_string:
  assumes "deliver p fs = Inr (Some s, fs')"
  shows "fs' = fs \<and> s \<noteq> []"
  using assms
  by (auto simp: deliver_def open_read_def open_write_def
      split: option.splits node.splits sum.splits if_splits)

lemma run_curl_frame:
  assumes "run_curl e dst url fs = Inr fs1"
  shows "(\<forall>q. q \<noteq> dst \<longrightarrow> fs1 q = fs q) \<and> (fs1 dst = Some Dir \<longleftrightarrow> fs dst = Some Dir)"
  using assms
  by (auto simp: run_curl_def split: fetch_result.splits option.splits node.splits)

lemma attempt_success:
  assumes "attempt e dst url fs = (None, fs')"
  shows "\<exists>fs1 raw m g. run_curl e dst url fs = Inr fs1 \<and> fs1 dst = Some (File raw)
           \<and> isin ''</GetRecord>'' raw \<and> isin ''</metadata>'' raw
           \<and> search metadataPat raw = Some m \<and> match_group m 1 = Inr g
           \<and> fs' = fs1(dst \<mapsto> File (strip g))"
proof -
  from assms obtain fs1 where r: "run_curl e dst url fs = Inr fs1"
    and d: "deliver dst fs1 = Inr (None, fs')"
    by (auto simp: attempt_def split: sum.splits option.splits prod.splits)
  from deliver_success[OF d] r show ?thesis by blast
qed

lemma attempt_failure:
  assumes "attempt e dst url fs = (Some err, fs')"
  shows "truthy (Some err) \<and> (\<forall>q. q \<noteq> dst \<longrightarrow> fs' q = fs q)
         \<and> (fs' dst = Some Dir \<longleftrightarrow> fs dst = Some Dir)"
proof (cases "run_curl e dst url fs")
  case (Inl x)
  with assms show ?thesis by (auto simp: attempt_def)
next
  case (Inr fs1)
  note fr = run_curl_frame[OF Inr]
  show ?thesis
  proof (cases "deliver dst fs1")
    case (Inl x)
    with Inr assms fr show ?thesis by (auto simp: attempt_def)
  next
    case (Inr r)
    obtain er fs2 where r: "r = (er, fs2)" by (cases r)
    with Inr \<open>run_curl e dst url fs = Inr fs1\<close> assms obtain s where er: "er = Some s"
      and "err = ErrStr s" "fs' = fs2"
      by (auto simp: attempt_def split: option.splits)
    with deliver_error_string[of dst fs1 s fs2] Inr r fr show ?thesis by auto
  qed
qed

lemma attempt_dir:
  assumes "fs dst = Some Dir"
  shows "\<exists>x. attempt e dst url fs = (Some (ErrExc x), fs)"
  using assms
  by (auto simp: attempt_def run_curl_def deliver_def open_read_def
      split: fetch_result.splits)

lemma harvestDoc_dir:
  assumes "files w (docDest setDest docId) = Some Dir"
  shows "harvestDoc e repoTask setDest docId (setGood, nError, w)
         = Inl (IsADirectoryError (docDest setDest docId))"
proof -
  from attempt_dir[of "files w" "docDest setDest docId" e "docUrl repoTask docId"] assms
  obtain x where "attempt e (docDest setDest docId) (docUrl repoTask docId) (files w)
                  = (Some (ErrExc x), files w)" by blast
  with assms show ?thesis
    by (simp add: harvestDoc_def say_def path_exists_def unlink_def)
qed

lemma harvestDoc_success:
  assumes "attempt e (docDest setDest docId) (docUrl repoTask docId) (files w) = (None, fs')"
  shows "harvestDoc e repoTask setDest docId (setGood, nError, w)
         = Inr (setGood, nError, \<lparr>files = fs', log = log w @ [HarvestingDoc docId, DocOK]\<rparr>)"
  using assms by (simp add: harvestDoc_def say_def)

lemma harvestDoc_failure:
  assumes "attempt e (docDest setDest docId) (docUrl repoTask docId) (files w) = (Some err, fs')"
    and "files w (docDest setDest docId) \<noteq> Some Dir"
  shows "harvestDoc e repoTask setDest docId (setGood, nError, w)
         = Inr (False, nError + 1,
                \<lparr>files = fs'(docDest setDest docId := None),
                 log = log w @ [HarvestingDoc docId, DocXX, DocErrorLine err]\<rparr>)"
proof -
  from attempt_failure[OF assms(1)] assms(2)
  have t: "truthy (Some err)" and nd: "fs' (docDest setDest docId) \<noteq> Some Dir" by auto
  show ?thesis
  proof (cases "fs' (docDest setDest docId)")
    case None
    then have "fs'(docDest setDest docId := None) = fs'" by auto
    with None assms(1) t show ?thesis
      by (simp add: harvestDoc_def say_def path_exists_def)
  next
    case (Some n)
    with nd obtain t' where "n = File t'" by (cases n) auto
    with Some assms(1) t show ?thesis
      by (simp add: harvestDoc_def say_def path_exists_def unlink_def)
  qed
qed

lemma docs_started_append: "docs_started (xs @ ys) = docs_started xs @ docs_started ys"
  by (induction xs rule: docs_started.induct) auto

lemma harvestDoc_Inr:
  assumes "harvestDoc e repoTask setDest docId (setGood, nError, w) = Inr (setGood', nError', w')"
  shows "\<exists>ok err. setGood' = (setGood \<and> ok) \<and> nError' = (if ok then nError else nError + 1)
           \<and> log w' = log w @ HarvestingDoc docId # (if ok then [DocOK] else [DocXX, DocErrorLine err])
           \<and> (\<forall>q. q \<noteq> docDest setDest docId \<longrightarrow> files w' q = files w q)
           \<and> is_file (files w' (docDest setDest docId)) = ok
           \<and> files w' (docDest setDest docId) \<noteq> Some Dir
           \<and> files w (docDest setDest docId) \<noteq> Some Dir"
proof -
  let ?dst = "docDest setDest docId"
  have nd: "files w ?dst \<noteq> Some Dir"
    using assms harvestDoc_dir[of w setDest docId e repoTask setGood nError] by auto
  obtain r fs' where a: "attempt e ?dst (docUrl repoTask docId) (files w) = (r, fs')"
    by (cases "attempt e ?dst (docUrl repoTask docId) (files w)")
  show ?thesis
  proof (cases r)
    case None
    with a have a': "attempt e ?dst (docUrl repoTask docId) (files w) = (None, fs')" by simp
    from attempt_success[OF a'] obtain fs1 t where
      "run_curl e ?dst (docUrl repoTask docId) (files w) = Inr fs1" "fs' = fs1(?dst \<mapsto> File t)"
      by blast
    with run_curl_frame[of e ?dst "docUrl repoTask docId" "files w" fs1]
    have "\<forall>q. q \<noteq> ?dst \<longrightarrow> fs' q = files w q" "fs' ?dst = Some (File t)" by auto
    with harvestDoc_success[OF a', of setGood nError] assms nd show ?thesis
      by (intro exI[of _ True]) (auto simp: is_file_def)
  next
    case (Some err)
    with a have a': "attempt e ?dst (docUrl repoTask docId) (files w) = (Some err, fs')" by simp
    from attempt_failure[OF a'] harvestDoc_failure[OF a' nd, of setGood nError] assms nd
    show ?thesis
      by (intro exI[of _ False] exI[of _ err]) (auto simp: is_file_def)
  qed
qed

lemma harvestDocs_Inr:
  assumes "harvestDocs e repoTask setDest ids (setGood, nError, w) = Inr (setGood', nError', w')"
  shows "\<exists>evs. log w' = log w @ evs \<and> docs_started evs = ids \<and> list_all is_doc_msg evs
           \<and> nError' = nError + int (count_list evs DocXX)
           \<and> count_list evs DocOK + count_list evs DocXX = length ids
           \<and> setGood' = (setGood \<and> count_list evs DocXX = 0)
           \<and> (\<forall>q. q \<notin> docDest setDest ` set ids \<longrightarrow> files w' q = files w q)
           \<and> (\<forall>q. files w' q = Some Dir \<longleftrightarrow> files w q = Some Dir)
           \<and> (distinct (map (docDest setDest) ids) \<longrightarrow>
                length (filter (\<lambda>d. is_file (files w' (docDest setDest d))) ids)
                = count_list evs DocOK)"
  using assms
proof (induction ids arbitrary: setGood nError w)
  case Nil
  then show ?case by (intro exI[of _ "[]"]) simp
next
  case (Cons d ids)
  let ?dst = "docDest setDest d"
  from Cons.prems obtain sg1 ne1 w1 where
    step: "harvestDoc e repoTask setDest d (setGood, nError, w) = Inr (sg1, ne1, w1)"
    and rest: "harvestDocs e repoTask setDest ids (sg1, ne1, w1) = Inr (setGood', nError', w')"
    by (auto split: sum.splits)
  from harvestDoc_Inr[OF step] obtain ok err where
    sg1: "sg1 = (setGood \<and> ok)" and ne1: "ne1 = (if ok then nError else nError + 1)"
    and l1: "log w1 = log w @ HarvestingDoc d # (if ok then [DocOK] else [DocXX, DocErrorLine err])"
    and f1: "\<forall>q. q \<noteq> ?dst \<longrightarrow> files w1 q = files w q"
    and k1: "is_file (files w1 ?dst) = ok"
    and d1: "files w1 ?dst \<noteq> Some Dir" "files w ?dst \<noteq> Some Dir"
    by blast
  from Cons.IH[OF rest] obtain evs where
    l2: "log w' = log w1 @ evs" and s2: "docs_started evs = ids" and a2: "list_all is_doc_msg evs"
    and ne2: "nError' = ne1 + int (count_list evs DocXX)"
    and c2: "count_list evs DocOK + count_list evs DocXX = length ids"
    and sg2: "setGood' = (sg1 \<and> count_list evs DocXX = 0)"
    and f2: "\<forall>q. q \<notin> docDest setDest ` set ids \<longrightarrow> files w' q = files w1 q"
    and d2: "\<forall>q. files w' q = Some Dir \<longleftrightarrow> files w1 q = Some Dir"
    and k2: "distinct (map (docDest setDest) ids) \<longrightarrow>
                length (filter (\<lambda>d. is_file (files w' (docDest setDest d))) ids)
                = count_list evs DocOK"
    by blast
  let ?evs = "HarvestingDoc d # (if ok then [DocOK] else [DocXX, DocErrorLine err]) @ evs"
  have "log w' = log w @ ?evs" using l1 l2 by simp
  moreover have "docs_started ?evs = d # ids" using s2 by simp
  moreover have "list_all is_doc_msg ?evs" using a2 by simp
  moreover have "nError' = nError + int (count_list ?evs DocXX)" using ne1 ne2 by simp
  moreover have "count_list ?evs DocOK + count_list ?evs DocXX = length (d # ids)" using c2 by simp
  moreover have "setGood' = (setGood \<and> count_list ?evs DocXX = 0)" using sg1 sg2 by auto
  moreover have "\<forall>q. q \<notin> docDest setDest ` set (d # ids) \<longrightarrow> files w' q = files w q"
    using f1 f2 by auto
  moreover have "\<forall>q. files w' q = Some Dir \<longleftrightarrow> files w q = Some Dir"
  proof
    fix q show "files w' q = Some Dir \<longleftrightarrow> files w q = Some Dir"
      using d2 f1 d1 by (cases "q = ?dst") auto
  qed
  moreover have "distinct (map (docDest setDest) (d # ids)) \<longrightarrow>
                length (filter (\<lambda>d. is_file (files w' (docDest setDest d))) (d # ids))
                = count_list ?evs DocOK"
  proof
    assume dist: "distinct (map (docDest setDest) (d # ids))"
    then have "?dst \<notin> docDest setDest ` set ids" by auto
    with f2 k1 have "is_file (files w' ?dst) = ok" by auto
    with k2 dist show "length (filter (\<lambda>d. is_file (files w' (docDest setDest d))) (d # ids))
                = count_list ?evs DocOK" by auto
  qed
  ultimately show ?case by blast
qed

lemma doc_msgs_no_failure: "list_all is_doc_msg evs \<Longrightarrow> list_all (\<lambda>m. \<not> failure_msg m) evs"
proof (induction evs)
  case Nil
  then show ?case by simp
next
  case (Cons m evs)
  then show ?case by (cases m) auto
qed

lemma mkdirs_at: "mkdirs ps fs q = (if q \<in> set ps \<and> fs q = None then Some Dir else fs q)"
  by (induction ps arbitrary: fs) auto

lemma check_dir_spec:
  assumes "check_dir e d w = (ok, w')"
  shows "ok = dir_check_passed e d (files w) \<and> files w' = fs_after_dir_check e d (files w)"
proof (cases "files w d")
  case None
  with assms show ?thesis
    by (auto simp: check_dir_def path_exists_def makedirs_def say_def dir_check_passed_def
        fs_after_dir_check_def split: if_splits)
next
  case (Some n)
  with assms show ?thesis
    by (cases n) (auto simp: check_dir_def path_exists_def path_isdir_def say_def
        dir_check_passed_def fs_after_dir_check_def split: if_splits)
qed

lemma check_dir_cases:
  assumes "check_dir e d w = (ok, w')"
  shows "(ok \<and> log w' = log w \<and> files w' d = Some Dir
            \<and> (files w d = Some Dir \<or> files w d = None \<and> makedirs_ok e (files w) d))
       \<or> (\<not> ok \<and> files w' = files w
            \<and> (files w d = None \<and> \<not> makedirs_ok e (files w) d \<and> log w' = log w @ [CannotCreate d]
               \<or> (\<exists>t. files w d = Some (File t)) \<and> log w' = log w @ [NotADirectory d]))"
proof (cases "files w d")
  case None
  with assms show ?thesis
    by (auto simp: check_dir_def path_exists_def makedirs_def say_def mkdirs_at split: if_splits)
next
  case (Some n)
  with assms show ?thesis
    by (cases n) (auto simp: check_dir_def path_exists_def path_isdir_def say_def split: if_splits)
qed

lemma harvestSet_Inr:
  assumes "harvestSet e repoTask repoSet (good, w) = Inr (good', w')"
  shows "\<exists>blk. log w' = log w @ blk \<and> set_block repoTask repoSet blk
           \<and> good' = (good \<and> list_all (\<lambda>m. \<not> failure_msg m) blk)"
proof -
  let ?tn = "name_of_task repoTask" and ?sn = "name_of_set repoSet" and ?ids = "sorted_ids repoSet"
  let ?sd = "dest_of_set repoTask repoSet"
  let ?h = "HarvestingSet ?tn ?sn (length ?ids)"
  let ?w1 = "say ?h w"
  obtain ok w2 where cd: "check_dir e ?sd ?w1 = (ok, w2)" by (cases "check_dir e ?sd ?w1")
  have l1: "log ?w1 = log w @ [?h]" "files ?w1 = files w" by (simp_all add: say_def)
  show ?thesis
  proof (cases ok)
    case False
    with assms cd have r: "good' = False" "w' = w2"
      by (auto simp: harvestSet_def Let_def name_of_task_def name_of_set_def sorted_ids_def dest_of_set_def)
    from check_dir_cases[OF cd] False l1 have
      "files w2 = files w"
      "log w2 = log w @ [?h, CannotCreate ?sd] \<or> log w2 = log w @ [?h, NotADirectory ?sd]"
      by auto
    with r show ?thesis
      by (auto simp: set_block_def Let_def)
  next
    case True
    with assms cd obtain sg ne w3 where
      docs: "harvestDocs e repoTask ?sd ?ids (True, 0, w2) = Inr (sg, ne, w3)"
      and r: "good' = (if \<not> sg then False else good)"
        "w' = say (Harvested ?tn ?sn (int (length ?ids) - ne) ne) w3"
      by (auto simp: harvestSet_def Let_def name_of_task_def name_of_set_def sorted_ids_def dest_of_set_def
          split: sum.splits)
    from check_dir_cases[OF cd] True l1 have w2: "log w2 = log w @ [?h]"
      by auto
    from harvestDocs_Inr[OF docs] obtain evs where
      e: "log w3 = log w2 @ evs" "docs_started evs = ?ids" "list_all is_doc_msg evs"
      "ne = int (count_list evs DocXX)" "sg = (count_list evs DocXX = 0)"
      by auto
    let ?blk = "?h # evs @ [Harvested ?tn ?sn (int (length ?ids) - ne) ne]"
    have "log w' = log w @ ?blk" using r e w2 by (simp add: say_def)
    moreover have "set_block repoTask repoSet ?blk"
      using e by (simp add: set_block_def Let_def)
    moreover have "good' = (good \<and> list_all (\<lambda>m. \<not> failure_msg m) ?blk)"
      using r e doc_msgs_no_failure[OF e(3)] by auto
    ultimately show ?thesis by blast
  qed
qed

lemma harvestSets_Inr:
  assumes "harvestSets e repoTask sets (good, w) = Inr (good', w')"
  shows "\<exists>blocks. log w' = log w @ concat blocks \<and> list_all2 (set_block repoTask) sets blocks
           \<and> good' = (good \<and> list_all (\<lambda>m. \<not> failure_msg m) (concat blocks))"
  using assms
proof (induction sets arbitrary: good w)
  case Nil
  then show ?case by (intro exI[of _ "[]"]) simp
next
  case (Cons s sets)
  from Cons.prems obtain g1 w1 where
    step: "harvestSet e repoTask s (good, w) = Inr (g1, w1)"
    and rest: "harvestSets e repoTask sets (g1, w1) = Inr (good', w')"
    by (auto split: sum.splits)
  from harvestSet_Inr[OF step] obtain blk where
    b: "log w1 = log w @ blk" "set_block repoTask s blk"
    "g1 = (good \<and> list_all (\<lambda>m. \<not> failure_msg m) blk)"
    by blast
  from Cons.IH[OF rest] obtain blocks where
    bs: "log w' = log w1 @ concat blocks" "list_all2 (set_block repoTask) sets blocks"
    "good' = (g1 \<and> list_all (\<lambda>m. \<not> failure_msg m) (concat blocks))"
    by blast
  have "log w' = log w @ concat (blk # blocks)" using b bs by simp
  moreover have "list_all2 (set_block repoTask) (s # sets) (blk # blocks)" using b bs by simp
  moreover have "good' = (good \<and> list_all (\<lambda>m. \<not> failure_msg m) (concat (blk # blocks)))"
    using b bs by auto
  ultimately show ?case by blast
qed

lemma harvest_Inr:
  assumes "harvest e repoTask w = Inr (good, w')"
  shows "\<exists>blk. log w' = log w @ blk \<and> task_block repoTask blk
           \<and> good = list_all (\<lambda>m. \<not> failure_msg m) blk"
proof -
  let ?tn = "name_of_task repoTask" and ?dest = "get_or (t_dest repoTask) []"
  let ?sets = "get_or (t_sets repoTask) []"
  let ?w1 = "say (Harvesting ?tn) w"
  obtain ok w2 where cd: "check_dir e ?dest ?w1 = (ok, w2)" by (cases "check_dir e ?dest ?w1")
  have l1: "log ?w1 = log w @ [Harvesting ?tn]" "files ?w1 = files w" by (simp_all add: say_def)
  show ?thesis
  proof (cases ok)
    case False
    with assms cd have r: "good = False" "w' = w2"
      by (auto simp: harvest_def Let_def name_of_task_def)
    from check_dir_cases[OF cd] False l1 have
      "files w2 = files w"
      "log w2 = log w @ [Harvesting ?tn, CannotCreate ?dest]
       \<or> log w2 = log w @ [Harvesting ?tn, NotADirectory ?dest]"
      by auto
    with r show ?thesis by (auto simp: task_block_def)
  next
    case True
    with assms cd have sets: "harvestSets e repoTask ?sets (True, w2) = Inr (good, w')"
      by (auto simp: harvest_def Let_def name_of_task_def)
    from check_dir_cases[OF cd] True l1 have w2: "log w2 = log w @ [Harvesting ?tn]"
      by auto
    from harvestSets_Inr[OF sets] obtain blocks where
      b: "log w' = log w2 @ concat blocks" "list_all2 (set_block repoTask) ?sets blocks"
      "good = list_all (\<lambda>m. \<not> failure_msg m) (concat blocks)"
      by auto
    let ?blk = "Harvesting ?tn # concat blocks"
    have "log w' = log w @ ?blk" using b w2 by simp
    moreover have "task_block repoTask ?blk" using b(2) unfolding task_block_def by blast
    moreover have "good = list_all (\<lambda>m. \<not> failure_msg m) ?blk" using b(3) by simp
    ultimately show ?thesis by blast
  qed
qed

lemma harvestTasks_Inr:
  assumes "harvestTasks e tasks (good, w) = Inr (good', w')"
  shows "\<exists>blocks. log w' = log w @ concat blocks \<and> list_all2 task_block tasks blocks
           \<and> good' = (good \<and> list_all (list_all (\<lambda>m. \<not> failure_msg m)) blocks)"
  using assms
proof (induction tasks arbitrary: good w)
  case Nil
  then show ?case by (intro exI[of _ "[]"]) simp
next
  case (Cons t tasks)
  from Cons.prems obtain g1 w1 where
    step: "harvest e t w = Inr (g1, w1)"
    and rest: "harvestTasks e tasks (if \<not> g1 then False else good, w1) = Inr (good', w')"
    by (auto split: sum.splits)
  from harvest_Inr[OF step] obtain blk where
    b: "log w1 = log w @ blk" "task_block t blk" "g1 = list_all (\<lambda>m. \<not> failure_msg m) blk"
    by blast
  from Cons.IH[OF rest] obtain blocks where
    bs: "log w' = log w1 @ concat blocks" "list_all2 task_block tasks blocks"
    "good' = ((if \<not> g1 then False else good) \<and> list_all (list_all (\<lambda>m. \<not> failure_msg m)) blocks)"
    by blast
  have "log w' = log w @ concat (blk # blocks)" using b bs by simp
  moreover have "list_all2 task_block (t # tasks) (blk # blocks)" using b bs by simp
  moreover have "good' = (good \<and> list_all (list_all (\<lambda>m. \<not> failure_msg m)) (blk # blocks))"
    using b bs by auto
  ultimately show ?case by blast
qed

subsection \<open>The loops and the outcome in the words of the description\<close>

lemma doc_fails_attempt:
  "doc_fails e repoTask sd docId fs
   = truthy (fst (attempt e (docDest sd docId) (docUrl repoTask docId) fs))"
proof (cases "run_curl e (docDest sd docId) (docUrl repoTask docId) fs")
  case (Inl x)
  then show ?thesis by (simp add: doc_fails_def attempt_def)
next
  case (Inr fs1)
  show ?thesis
  proof (cases "deliver (docDest sd docId) fs1")
    case (Inl x)
    with Inr show ?thesis by (simp add: doc_fails_def attempt_def)
  next
    case r: (Inr r)
    obtain er fs2 where p: "r = (er, fs2)" by (cases r)
    show ?thesis
    proof (cases er)
      case None
      with Inr r p show ?thesis by (simp add: doc_fails_def attempt_def)
    next
      case (Some m)
      with r p deliver_error_string[of "docDest sd docId" fs1 m fs2] have "m \<noteq> []" by simp
      with Some Inr r p show ?thesis by (simp add: doc_fails_def attempt_def)
    qed
  qed
qed

lemma harvestDoc_spec:
  assumes "harvestDoc e repoTask sd docId (setGood, nError, w) = Inr (setGood', nError', w')"
  shows "setGood' = (setGood \<and> \<not> doc_fails e repoTask sd docId (files w))
         \<and> nError' = nError + (if doc_fails e repoTask sd docId (files w) then 1 else 0)
         \<and> files w' = fs_after_doc e repoTask sd docId (files w)"
proof -
  let ?dst = "docDest sd docId" and ?url = "docUrl repoTask docId"
  have nd: "files w ?dst \<noteq> Some Dir"
    using assms harvestDoc_dir[of w sd docId e repoTask setGood nError] by auto
  obtain r fs' where a: "attempt e ?dst ?url (files w) = (r, fs')"
    by (cases "attempt e ?dst ?url (files w)")
  show ?thesis
  proof (cases r)
    case None
    with a have a': "attempt e ?dst ?url (files w) = (None, fs')" by simp
    then have nf: "\<not> doc_fails e repoTask sd docId (files w)"
      by (simp add: doc_fails_attempt)
    from a' obtain fs1 where "run_curl e ?dst ?url (files w) = Inr fs1"
      "deliver ?dst fs1 = Inr (None, fs')"
      by (auto simp: attempt_def split: sum.splits option.splits prod.splits)
    with nf have "fs_after_doc e repoTask sd docId (files w) = fs'"
      by (simp add: fs_after_doc_def)
    with harvestDoc_success[OF a', of setGood nError] assms nf show ?thesis by auto
  next
    case (Some err)
    with a have a': "attempt e ?dst ?url (files w) = (Some err, fs')" by simp
    from attempt_failure[OF a'] have t: "truthy (Some err)"
      and fr: "\<forall>q. q \<noteq> ?dst \<longrightarrow> fs' q = files w q" by auto
    from a' t have f: "doc_fails e repoTask sd docId (files w)"
      by (simp add: doc_fails_attempt)
    from fr have "fs'(?dst := None) = (files w)(?dst := None)" by auto
    with f have "fs_after_doc e repoTask sd docId (files w) = fs'(?dst := None)"
      by (simp add: fs_after_doc_def)
    with harvestDoc_failure[OF a' nd, of setGood nError] assms f show ?thesis by auto
  qed
qed

lemma harvestDocs_spec:
  assumes "harvestDocs e repoTask sd ids (setGood, nError, w) = Inr (setGood', nError', w')"
  shows "setGood' = (setGood \<and> failure_count e repoTask sd ids (files w) = 0)
         \<and> nError' = nError + int (failure_count e repoTask sd ids (files w))
         \<and> files w' = fs_after_docs e repoTask sd ids (files w)"
  using assms
proof (induction ids arbitrary: setGood nError w)
  case Nil
  then show ?case by simp
next
  case (Cons d ids)
  from Cons.prems obtain sg1 ne1 w1 where
    step: "harvestDoc e repoTask sd d (setGood, nError, w) = Inr (sg1, ne1, w1)"
    and rest: "harvestDocs e repoTask sd ids (sg1, ne1, w1) = Inr (setGood', nError', w')"
    by (auto split: sum.splits)
  from harvestDoc_spec[OF step] have
    s: "sg1 = (setGood \<and> \<not> doc_fails e repoTask sd d (files w))"
       "ne1 = nError + (if doc_fails e repoTask sd d (files w) then 1 else 0)"
       "files w1 = fs_after_doc e repoTask sd d (files w)"
    by auto
  from Cons.IH[OF rest] have
    r: "setGood' = (sg1 \<and> failure_count e repoTask sd ids (files w1) = 0)"
       "nError' = ne1 + int (failure_count e repoTask sd ids (files w1))"
       "files w' = fs_after_docs e repoTask sd ids (files w1)"
    by auto
  from s r show ?case by auto
qed

lemma harvestSet_spec:
  assumes "harvestSet e repoTask repoSet (good, w) = Inr (good', w')"
  shows "good' = (good \<and> set_succeeded e repoTask repoSet (files w))
         \<and> files w' = fs_after_set e repoTask repoSet (files w)"
proof -
  let ?tn = "name_of_task repoTask" and ?sn = "name_of_set repoSet" and ?ids = "sorted_ids repoSet"
  let ?sd = "dest_of_set repoTask repoSet"
  let ?w1 = "say (HarvestingSet ?tn ?sn (length ?ids)) w"
  obtain ok w2 where cd: "check_dir e ?sd ?w1 = (ok, w2)" by (cases "check_dir e ?sd ?w1")
  from check_dir_spec[OF cd] have
    c: "ok = dir_check_passed e ?sd (files w)" "files w2 = fs_after_dir_check e ?sd (files w)"
    by (simp_all add: say_def)
  show ?thesis
  proof (cases ok)
    case False
    with assms cd have r: "good' = False" "w' = w2"
      by (auto simp: harvestSet_def Let_def name_of_task_def name_of_set_def sorted_ids_def
          dest_of_set_def)
    from False c(1) have np: "\<not> dir_check_passed e ?sd (files w)" by simp
    then have "fs_after_dir_check e ?sd (files w) = files w"
      by (auto simp: fs_after_dir_check_def dir_check_passed_def)
    with c(2) have "files w2 = files w" by simp
    with r np show ?thesis
      by (simp add: set_succeeded_def fs_after_set_def)
  next
    case True
    with assms cd obtain sg ne w3 where
      docs: "harvestDocs e repoTask ?sd ?ids (True, 0, w2) = Inr (sg, ne, w3)"
      and r: "good' = (if \<not> sg then False else good)"
        "w' = say (Harvested ?tn ?sn (int (length ?ids) - ne) ne) w3"
      by (auto simp: harvestSet_def Let_def name_of_task_def name_of_set_def sorted_ids_def
          dest_of_set_def split: sum.splits)
    from harvestDocs_spec[OF docs] c(2) have
      "sg = (failure_count e repoTask ?sd ?ids (fs_after_dir_check e ?sd (files w)) = 0)"
      "files w3 = fs_after_docs e repoTask ?sd ?ids (fs_after_dir_check e ?sd (files w))"
      by simp_all
    with r True c(1) show ?thesis
      by (auto simp: set_succeeded_def fs_after_set_def say_def)
  qed
qed

lemma harvestSets_spec:
  assumes "harvestSets e repoTask sets (good, w) = Inr (good', w')"
  shows "good' = (good \<and> sets_succeeded e repoTask sets (files w))
         \<and> files w' = fs_after_sets e repoTask sets (files w)"
  using assms
proof (induction sets arbitrary: good w)
  case Nil
  then show ?case by simp
next
  case (Cons s sets)
  from Cons.prems obtain g1 w1 where
    step: "harvestSet e repoTask s (good, w) = Inr (g1, w1)"
    and rest: "harvestSets e repoTask sets (g1, w1) = Inr (good', w')"
    by (auto split: sum.splits)
  from harvestSet_spec[OF step] Cons.IH[OF rest] show ?case by auto
qed

lemma harvest_spec:
  assumes "harvest e repoTask w = Inr (good, w')"
  shows "good = task_succeeded e repoTask (files w)
         \<and> files w' = fs_after_task e repoTask (files w)"
proof -
  let ?dest = "get_or (t_dest repoTask) []"
  let ?w1 = "say (Harvesting (name_of_task repoTask)) w"
  obtain ok w2 where cd: "check_dir e ?dest ?w1 = (ok, w2)" by (cases "check_dir e ?dest ?w1")
  from check_dir_spec[OF cd] have
    c: "ok = dir_check_passed e ?dest (files w)" "files w2 = fs_after_dir_check e ?dest (files w)"
    by (simp_all add: say_def)
  show ?thesis
  proof (cases ok)
    case False
    with assms cd have r: "good = False" "w' = w2"
      by (auto simp: harvest_def Let_def name_of_task_def)
    from False c(1) have np: "\<not> dir_check_passed e ?dest (files w)" by simp
    then have "fs_after_dir_check e ?dest (files w) = files w"
      by (auto simp: fs_after_dir_check_def dir_check_passed_def)
    with c(2) have "files w2 = files w" by simp
    with r np show ?thesis
      by (simp add: task_succeeded_def fs_after_task_def)
  next
    case True
    with assms cd have
      "harvestSets e repoTask (get_or (t_sets repoTask) []) (True, w2) = Inr (good, w')"
      by (auto simp: harvest_def Let_def name_of_task_def)
    from harvestSets_spec[OF this] True c show ?thesis
      by (simp add: task_succeeded_def fs_after_task_def)
  qed
qed

lemma harvestTasks_spec:
  assumes "harvestTasks e tasks (good, w) = Inr (good', w')"
  shows "good' = (good \<and> all_succeeded e tasks (files w))
         \<and> files w' = fs_after_tasks e tasks (files w)"
  using assms
proof (induction tasks arbitrary: good w)
  case Nil
  then show ?case by simp
next
  case (Cons t tasks)
  from Cons.prems obtain g1 w1 where
    step: "harvest e t w = Inr (g1, w1)"
    and rest: "harvestTasks e tasks (if \<not> g1 then False else good, w1) = Inr (good', w')"
    by (auto split: sum.splits)
  from harvest_spec[OF step] Cons.IH[OF rest] show ?case by auto
qed

subsection \<open>One pass over a set\<close>






subsection \<open>Example runs, evaluated\<close>

lemmas run_defs =
  harvestAll_def harvest_def harvestSet_def harvestDoc_def check_dir_def makedirs_def
  ancestors_def
  path_exists_def path_isdir_def say_def get_or_def docDest_def docUrl_def attempt_def
  run_curl_def deliver_def open_read_def open_write_def unlink_def metadataPat_def errorPat_def
  lits_def match_group_def between_def strip_def isspace_def quotes_def dq_def Let_def

lemma sort_ba: "sort [''b'', ''a''] = [''a'', ''b'']"
  by code_simp

lemma sort_ab: "sort [''a:b'', ''a-b''] = [''a-b'', ''a:b'']"
  by code_simp

lemma run_done: "harvestAll env_ok [task_r] w_empty = Inr (True, w_done)"
  by (simp add: run_defs task_r_def env_ok_def w_empty_def w_done_def sort_ba)

lemma run_subdir: "harvestAll env_ok [task_r] w_subdir = Inl (IsADirectoryError ''out/s/a'')"
  by (simp add: run_defs task_r_def env_ok_def w_subdir_def sort_ba)

lemma run_nested:
  "harvestAll env_ok [task_n, task_r] w_empty = Inl (IsADirectoryError ''out/s/a'')"
  by (simp add: run_defs task_n_def task_r_def env_ok_def w_empty_def sort_ba)

lemma run_c: "harvestSet env_ab task_c set_c (True, w_empty) = Inr (True, w_c)"
  by (simp add: run_defs task_c_def set_c_def env_ab_def w_empty_def w_c_def sort_ab)

lemma run_d: "harvestSet env_a task_c set_c (True, w_empty) = Inr (False, w_d)"
  by (simp add: run_defs task_c_def set_c_def env_a_def w_empty_def w_d_def sort_ab one_error_def)



lemma run_half: "harvestAll env_b [task_r] w_empty = Inr (False, w_half)"
  by (simp add: run_defs task_r_def env_b_def w_empty_def w_half_def sort_ba one_error_def)

lemma run_f: "harvestAll env_ok [task_f, task_r] w_f = Inr (False, w_f_done)"
  by (simp add: run_defs task_f_def task_r_def set_r_def env_ok_def w_f_def w_f_done_def sort_ba)

lemma run_m: "harvestAll env_ok [task_m] w_m = Inr (False, w_m_done)"
  by (simp add: run_defs task_m_def set_r_def env_ok_def w_m_def w_m_done_def sort_ba)


subsection \<open>harvestAll: the result\<close>

text \<open>
  C1. Whenever \<^verbatim>\<open>harvestAll\<close> returns, the value it returns is the conjunction, over
  the tasks, of: the check of the destination of the task passed, and for every set of the
  task the check of the directory of the set passed and the failure count of the set is
  zero, that is, none of its identifiers failed its fetch or its classification. Each check
  and each identifier is taken in the file system that the tasks, sets and identifiers
  before it have left, and the file system after the run is the one they leave.
\<close>

theorem harvestAll_result:
  assumes "harvestAll e repoTasks w = Inr (good, w')"
  shows "good = all_succeeded e repoTasks (files w)
         \<and> files w' = fs_after_tasks e repoTasks (files w)"
  using harvestTasks_spec[of e repoTasks True w good w'] assms
  by (simp add: harvestAll_def)

text \<open>
  Four runs: two good identifiers; one identifier that fails; a task with a bad destination
  before a task that succeeds; a set with a bad directory before a set that succeeds.
\<close>

theorem harvestAll_result_witness:
  "harvestAll env_ok [task_r] w_empty = Inr (True, w_done)
   \<and> all_succeeded env_ok [task_r] (files w_empty)
   \<and> fs_after_tasks env_ok [task_r] (files w_empty) = files w_done
   \<and> harvestAll env_b [task_r] w_empty = Inr (False, w_half)
   \<and> \<not> all_succeeded env_b [task_r] (files w_empty)
   \<and> fs_after_tasks env_b [task_r] (files w_empty) = files w_half
   \<and> harvestAll env_ok [task_f, task_r] w_f = Inr (False, w_f_done)
   \<and> \<not> all_succeeded env_ok [task_f, task_r] (files w_f)
   \<and> fs_after_tasks env_ok [task_f, task_r] (files w_f) = files w_f_done
   \<and> harvestAll env_ok [task_m] w_m = Inr (False, w_m_done)
   \<and> \<not> all_succeeded env_ok [task_m] (files w_m)
   \<and> fs_after_tasks env_ok [task_m] (files w_m) = files w_m_done"
  using harvestAll_result[OF run_done] harvestAll_result[OF run_half]
    harvestAll_result[OF run_f] harvestAll_result[OF run_m] run_done run_half run_f run_m
  by simp

subsection \<open>harvest: the order of processing\<close>

lemma sets_started_append: "sets_started (xs @ ys) = sets_started xs @ sets_started ys"
  by (induction xs rule: sets_started.induct) auto

lemma doc_msgs_no_sets: "list_all is_doc_msg evs \<Longrightarrow> sets_started evs = []"
proof (induction evs)
  case Nil
  then show ?case by simp
next
  case (Cons m evs)
  then show ?case by (cases m) auto
qed

lemma set_block_order:
  assumes "set_block repoTask repoSet blk"
  shows "sets_started blk = [name_of_set repoSet]
         \<and> (docs_started blk = sorted_ids repoSet \<or> docs_started blk = [])"
proof -
  let ?h = "HarvestingSet (name_of_task repoTask) (name_of_set repoSet) (length (sorted_ids repoSet))"
  from assms consider
      "blk = [?h, CannotCreate (dest_of_set repoTask repoSet)]"
    | "blk = [?h, NotADirectory (dest_of_set repoTask repoSet)]"
    | evs good missed where "blk = ?h # evs @ [Harvested (name_of_task repoTask) (name_of_set repoSet) good missed]"
        "list_all is_doc_msg evs" "docs_started evs = sorted_ids repoSet"
    unfolding set_block_def Let_def by blast
  then show ?thesis
  proof cases
    case 1
    then show ?thesis by simp
  next
    case 2
    then show ?thesis by simp
  next
    case 3
    then show ?thesis
      by (simp add: sets_started_append docs_started_append doc_msgs_no_sets)
  qed
qed

lemma set_blocks_order:
  assumes "list_all2 (set_block repoTask) sets blocks"
  shows "sets_started (concat blocks) = map name_of_set sets
         \<and> (\<exists>passed. subseq passed sets \<and> docs_started (concat blocks) = concat (map sorted_ids passed))"
  using assms
proof (induction rule: list_all2_induct)
  case Nil
  have "subseq [] ([] :: repo_set list) \<and> docs_started (concat []) = concat (map sorted_ids [])"
    by simp
  then show ?case by (intro conjI exI[of _ "[]"]) simp_all
next
  case (Cons s sets blk blocks)
  from Cons.IH obtain passed where
    d: "subseq passed sets" "docs_started (concat blocks) = concat (map sorted_ids passed)"
    and n: "sets_started (concat blocks) = map name_of_set sets"
    by blast
  from set_block_order[OF Cons.hyps(1)] have
    b: "sets_started blk = [name_of_set s]"
       "docs_started blk = sorted_ids s \<or> docs_started blk = []"
    by auto
  from b(2) have "\<exists>passed'. subseq passed' (s # sets)
      \<and> docs_started (concat (blk # blocks)) = concat (map sorted_ids passed')"
  proof
    assume "docs_started blk = sorted_ids s"
    with d show ?thesis
      by (intro exI[of _ "s # passed"]) (simp add: docs_started_append)
  next
    assume "docs_started blk = []"
    with d show ?thesis
      by (intro exI[of _ "passed"]) (simp add: docs_started_append list_emb_Cons)
  qed
  with b(1) n show ?case by (simp add: sets_started_append)
qed

text \<open>
  C9. When \<^verbatim>\<open>harvest\<close> returns, the sets announced are all the sets of the task in the
  order of the task (or none, when the destination of the task is bad), each set block
  announces the identifiers of its set in ascending order, and so the identifiers announced
  are those of the sets whose directory check passed, set after set, each set's identifiers
  sorted. The sorted identifiers are a sorted rearrangement of the identifiers of the set.
\<close>

theorem harvest_order:
  assumes "harvest e repoTask w = Inr (good, w')"
  shows "\<exists>blk. log w' = log w @ blk \<and> task_block repoTask blk
           \<and> (sets_started blk = [] \<and> docs_started blk = []
              \<or> sets_started blk = map name_of_set (get_or (t_sets repoTask) []))
           \<and> (\<exists>passed. subseq passed (get_or (t_sets repoTask) [])
                  \<and> docs_started blk = concat (map sorted_ids passed))
           \<and> (\<forall>s. sorted (sorted_ids s) \<and> mset (sorted_ids s) = mset (get_or (s_ids s) []))"
proof -
  from harvest_Inr[OF assms] obtain blk where
    b: "log w' = log w @ blk" "task_block repoTask blk" by blast
  let ?sets = "get_or (t_sets repoTask) []"
  have "(sets_started blk = [] \<and> docs_started blk = []
              \<or> sets_started blk = map name_of_set ?sets)
           \<and> (\<exists>passed. subseq passed ?sets \<and> docs_started blk = concat (map sorted_ids passed))"
  proof -
    from b(2) consider
        "blk = [Harvesting (name_of_task repoTask), CannotCreate (get_or (t_dest repoTask) [])]"
      | "blk = [Harvesting (name_of_task repoTask), NotADirectory (get_or (t_dest repoTask) [])]"
      | blocks where "blk = Harvesting (name_of_task repoTask) # concat blocks"
          "list_all2 (set_block repoTask) ?sets blocks"
      unfolding task_block_def by blast
    then show ?thesis
    proof cases
      case 1
      then show ?thesis by (auto intro: exI[of _ "[]"])
    next
      case 2
      then show ?thesis by (auto intro: exI[of _ "[]"])
    next
      case 3
      with set_blocks_order[OF 3(2)] show ?thesis by simp
    qed
  qed
  moreover have "\<forall>s. sorted (sorted_ids s) \<and> mset (sorted_ids s) = mset (get_or (s_ids s) [])"
    by (simp add: sorted_ids_def)
  ultimately show ?thesis using b by blast
qed

lemma harvest_done: "harvest env_ok task_r w_empty = Inr (True, w_done)"
  by (simp add: run_defs task_r_def env_ok_def w_empty_def w_done_def sort_ba)

theorem harvest_order_witness:
  "harvest env_ok task_r w_empty = Inr (True, w_done)
   \<and> (\<exists>blk. log w_done = log w_empty @ blk \<and> task_block task_r blk
           \<and> (sets_started blk = [] \<and> docs_started blk = []
              \<or> sets_started blk = map name_of_set (get_or (t_sets task_r) []))
           \<and> (\<exists>passed. subseq passed (get_or (t_sets task_r) [])
                  \<and> docs_started blk = concat (map sorted_ids passed))
           \<and> (\<forall>s. sorted (sorted_ids s) \<and> mset (sorted_ids s) = mset (get_or (s_ids s) [])))"
  using harvest_order[OF harvest_done] harvest_done by blast

subsection \<open>harvest: one document\<close>



subsection \<open>harvest: the counters of a set\<close>






subsection \<open>harvest: two identifiers, one file\<close>

text \<open>
  C10. The identifiers \<^verbatim>\<open>a:b\<close> and \<^verbatim>\<open>a-b\<close> are different and have the same
  destination path; \<^verbatim>\<open>a-b\<close> is processed first. When both are good the file holds the
  record of \<^verbatim>\<open>a:b\<close>, the one of \<^verbatim>\<open>a-b\<close> is overwritten. When \<^verbatim>\<open>a:b\<close> is
  answered by an error, the file written for \<^verbatim>\<open>a-b\<close> is deleted, although \<^verbatim>\<open>a-b\<close>
  was reported good.
\<close>

theorem docDest_collision:
  "''a:b'' \<noteq> ''a-b''
   \<and> docDest ''out/s'' ''a:b'' = docDest ''out/s'' ''a-b''
   \<and> sorted_ids set_c = [''a-b'', ''a:b'']
   \<and> harvestSet env_ab task_c set_c (True, w_empty) = Inr (True, w_c)
   \<and> files w_c ''out/s/a-b'' = Some (File ''B'')
   \<and> harvestSet env_a task_c set_c (True, w_empty) = Inr (False, w_d)
   \<and> files w_d ''out/s/a-b'' = None"
proof -
  have "''a:b'' \<noteq> ''a-b''" by simp
  moreover have "docDest ''out/s'' ''a:b'' = docDest ''out/s'' ''a-b''" by (simp add: docDest_def)
  moreover have "sorted_ids set_c = [''a-b'', ''a:b'']"
    by (simp add: sorted_ids_def set_c_def get_or_def sort_ab)
  moreover have "files w_c ''out/s/a-b'' = Some (File ''B'')" by (simp add: w_c_def)
  moreover have "files w_d ''out/s/a-b'' = None" by (simp add: w_d_def)
  ultimately show ?thesis using run_c run_d by blast
qed

subsection \<open>harvest: a directory in the place of a document\<close>

text \<open>
  C7. The destination path of the identifier \<^verbatim>\<open>a\<close> is a directory. The fetch into
  it fails, \<^verbatim>\<open>deliver\<close> cannot read it, the exception is caught, and then
  \<^verbatim>\<open>os.unlink\<close>, which is outside the \<^verbatim>\<open>try\<close> block, raises: the exception leaves
  \<^verbatim>\<open>harvest\<close> and \<^verbatim>\<open>harvestAll\<close>, and the identifier \<^verbatim>\<open>b\<close> of the same set is
  never processed. The directory may be there before the run, or be made by the run itself
  for another task.
\<close>

theorem harvestAll_aborts:
  "files w_subdir ''out/s/a'' = Some Dir
   \<and> sorted_ids \<lparr>s_name = Some ''s'', s_ids = Some [''b'', ''a'']\<rparr> = [''a'', ''b'']
   \<and> harvestAll env_ok [task_r] w_subdir = Inl (IsADirectoryError ''out/s/a'')
   \<and> harvestAll env_ok [task_n, task_r] w_empty = Inl (IsADirectoryError ''out/s/a'')"
proof -
  have "files w_subdir ''out/s/a'' = Some Dir" by (simp add: w_subdir_def)
  moreover have "sorted_ids \<lparr>s_name = Some ''s'', s_ids = Some [''b'', ''a'']\<rparr> = [''a'', ''b'']"
    by (simp add: sorted_ids_def get_or_def sort_ba)
  ultimately show ?thesis using run_subdir run_nested by blast
qed

end
